theory Spec2Isabelle
  imports Complex_Main "HOL-Library.Word" "HOL-Library.Log_Nat"
begin

section \<open>Strings of the script\<close>

text \<open>
  A JavaScript string is a sequence of UTF-16 code units. String literals of the
  script are ASCII; \<open>js\<close> embeds such a literal.
\<close>

type_synonym jschar = "16 word"
type_synonym jsstring = "jschar list"

definition js :: "string \<Rightarrow> jsstring" where
  "js s = map (\<lambda>c. of_nat (of_char c)) s"

text \<open>
  The code units that \<open>String.prototype.trim\<close> strips and that \<open>\s\<close> matches in a
  regular expression without the unicode flag: WhiteSpace and LineTerminator of
  ECMAScript (TAB, LF, VT, FF, CR, SP, NBSP, U+1680, U+2000 to U+200A, LS, PS,
  U+202F, U+205F, U+3000, U+FEFF).
\<close>

definition isWhiteSpace :: "jschar \<Rightarrow> bool" where
  "isWhiteSpace c \<longleftrightarrow>
     c = 0x09 \<or> c = 0x0A \<or> c = 0x0B \<or> c = 0x0C \<or> c = 0x0D \<or> c = 0x20 \<or> c = 0xA0 \<or>
     c = 0x1680 \<or> (0x2000 \<le> c \<and> c \<le> 0x200A) \<or> c = 0x2028 \<or> c = 0x2029 \<or>
     c = 0x202F \<or> c = 0x205F \<or> c = 0x3000 \<or> c = 0xFEFF"

definition trim :: "jsstring \<Rightarrow> jsstring" where
  "trim s = rev (dropWhile isWhiteSpace (rev (dropWhile isWhiteSpace s)))"

section \<open>The email pattern\<close>

text \<open>
  The pattern \<open>/^[^\s@]+@[^\s@]+\.[^\s@]+$/\<close> is a sequence of pieces, each either one
  literal code unit or one-or-more code units of a class, anchored at both ends.
  \<open>regex_test\<close> is the backtracking matcher for such sequences: a one-or-more piece
  first tries to take another code unit (greedy) and otherwise hands over to the rest
  of the pattern; the empty pattern is the end anchor.
\<close>

datatype piece = Lit jschar | OneOrMore "jschar \<Rightarrow> bool"

fun regex_test :: "piece list \<Rightarrow> jsstring \<Rightarrow> bool" where
  "regex_test [] s = (s = [])"
| "regex_test (Lit c # ps) [] = False"
| "regex_test (Lit c # ps) (x # xs) = (x = c \<and> regex_test ps xs)"
| "regex_test (OneOrMore p # ps) [] = False"
| "regex_test (OneOrMore p # ps) (x # xs) =
     (p x \<and> (regex_test (OneOrMore p # ps) xs \<or> regex_test ps xs))"

definition notSpaceAt :: "jschar \<Rightarrow> bool" where
  "notSpaceAt c \<longleftrightarrow> \<not> isWhiteSpace c \<and> c \<noteq> 0x40"

definition emailRegex :: "piece list" where
  "emailRegex = [OneOrMore notSpaceAt, Lit 0x40, OneOrMore notSpaceAt, Lit 0x2E,
                 OneOrMore notSpaceAt]"

section \<open>Numbers of the script\<close>

text \<open>
  A JavaScript number is an IEEE 754 double. The finite doubles are the integer
  multiples \<open>m * 2 ^ e\<close> with \<open>\<bar>m\<bar> < 2 ^ 53\<close> and \<open>- 1074 \<le> e \<le> 971\<close>; they are
  modelled as the reals they denote. A sum or difference of two doubles is the exact
  result rounded to the nearest double, a tie going to the double with the even
  significand: \<open>toDouble\<close> scales the exact result to a multiple \<open>N\<close> of the smallest
  positive double \<open>2 ^ - 1074\<close>, drops the \<open>k\<close> bits by which \<open>N\<close> exceeds 53 bits, and
  scales back. The scroll offsets and layout numbers of a page are finite and far from
  the largest double, where a sum would overflow to infinity.
\<close>

definition roundTiesToEven :: "real \<Rightarrow> int" where
  "roundTiesToEven x =
     (let n = \<lfloor>x\<rfloor>; d = x - of_int n
      in if d < 1 / 2 then n else if 1 / 2 < d then n + 1 else if even n then n else n + 1)"

definition toDouble :: "real \<Rightarrow> real" where
  "toDouble x =
     (let N = x * 2 ^ 1074;
          k = nat (bitlen \<lfloor>\<bar>N\<bar>\<rfloor> - 53)
      in of_int (roundTiesToEven (N / 2 ^ k)) * 2 ^ k / 2 ^ 1074)"

section \<open>The document\<close>

text \<open>
  The script reads and writes one shared document. An element carries the attributes
  and properties the script touches: tag name, \<open>id\<close> and \<open>href\<close> attributes (absent
  attributes are \<open>None\<close>, as \<open>getAttribute\<close> returns \<open>null\<close>), the class list, the text
  content, the \<open>name\<close> and \<open>value\<close> of a form control with its default value and form
  owner, the parent node, and the layout numbers \<open>offsetTop\<close>, \<open>offsetHeight\<close> (integers)
  and the top of the bounding client rectangle. Elements are referred to by their
  position in the document order of the page as it was loaded; \<open>parentNode\<close> and
  \<open>form_owner\<close> are the parent and the form owner the element had then.
\<close>

record element =
  localName :: jsstring
  id_attr :: "jsstring option"
  href_attr :: "jsstring option"
  classList :: "jsstring list"
  textContent :: jsstring
  name_prop :: jsstring
  value_prop :: jsstring
  defaultValue :: jsstring
  form_owner :: "nat option"
  parentNode :: "nat option"
  offsetTop :: int
  offsetHeight :: int
  rectTop :: real

text \<open>
  The page: the elements in document order, the elements that have been taken out of
  their parent since the page was loaded, the vertical scroll offset, the calls made
  to \<open>window.scrollTo\<close>, the clock in milliseconds and the pending \<open>setTimeout\<close> callbacks.
  The only callback the script ever schedules removes the class \<open>show\<close> from the element
  it captured, so a pending timer is its due time and that element.
\<close>

record page =
  elements :: "element list"
  detached :: "nat set"
  pageYOffset :: real
  scrollToCalls :: "real list"
  clock :: nat
  timers :: "(nat \<times> nat) list"

datatype js_error = TypeError

datatype outcome = Done | Threw js_error

subsection \<open>Class lists\<close>

definition classList_contains :: "jsstring \<Rightarrow> element \<Rightarrow> bool" where
  "classList_contains c e \<longleftrightarrow> c \<in> set (classList e)"

definition classList_add :: "jsstring \<Rightarrow> element \<Rightarrow> element" where
  "classList_add c e = (if c \<in> set (classList e) then e else e\<lparr>classList := classList e @ [c]\<rparr>)"

definition classList_remove :: "jsstring \<Rightarrow> element \<Rightarrow> element" where
  "classList_remove c e = e\<lparr>classList := filter (\<lambda>x. x \<noteq> c) (classList e)\<rparr>"

definition classList_toggle :: "jsstring \<Rightarrow> element \<Rightarrow> element" where
  "classList_toggle c e = (if c \<in> set (classList e) then classList_remove c e else classList_add c e)"

subsection \<open>The tree\<close>

text \<open>
  The path of an event from its target up to the root, along the parent links; an
  element contains a node when it lies on the path from that node. Elements are
  numbered in document order, so a parent comes before its children.
\<close>

function path_up :: "element list \<Rightarrow> nat \<Rightarrow> nat list" where
  "path_up es r =
     r # (case parentNode (es ! r) of
            None \<Rightarrow> []
          | Some q \<Rightarrow> if q < r then path_up es q else [])"
  by pat_completeness auto
termination
  by (relation "measure snd") auto

declare path_up.simps [simp del]

definition event_path :: "page \<Rightarrow> nat \<Rightarrow> nat list" where
  "event_path p r = path_up (elements p) r"

text \<open>
  An element that was taken out of its parent is the root of a tree of its own, with
  all that it contains. The root of the tree an element is in now is the nearest such
  element on its path; when there is none the element is still in the document
  (\<open>Node.isConnected\<close>). The children of an element are the elements whose parent it is.
\<close>

definition treeRoot :: "page \<Rightarrow> nat \<Rightarrow> nat option" where
  "treeRoot p r = List.find (\<lambda>a. a \<in> detached p) (event_path p r)"

definition isConnected :: "page \<Rightarrow> nat \<Rightarrow> bool" where
  "isConnected p r \<longleftrightarrow> treeRoot p r = None"

definition children_of :: "page \<Rightarrow> nat \<Rightarrow> nat list" where
  "children_of p el =
     filter (\<lambda>c. parentNode (elements p ! c) = Some el \<and> el < c) [0..<length (elements p)]"

subsection \<open>Queries and updates\<close>

text \<open>
  \<open>getElementById\<close> and \<open>querySelectorAll\<close> search the document, so they find only
  elements that are still in it.
\<close>

definition matching :: "(element \<Rightarrow> bool) \<Rightarrow> page \<Rightarrow> nat list" where
  "matching P p =
     filter (\<lambda>r. isConnected p r \<and> P (elements p ! r)) [0..<length (elements p)]"

definition first :: "nat list \<Rightarrow> nat option" where
  "first rs = (case rs of [] \<Rightarrow> None | r # _ \<Rightarrow> Some r)"

text \<open>An element with an empty \<open>id\<close> attribute has no ID, so the empty string finds nothing.\<close>

definition getElementById :: "jsstring \<Rightarrow> page \<Rightarrow> nat option" where
  "getElementById i p = (if i = [] then None else first (matching (\<lambda>e. id_attr e = Some i) p))"

definition querySelectorAll_class :: "jsstring \<Rightarrow> page \<Rightarrow> nat list" where
  "querySelectorAll_class c p = matching (classList_contains c) p"

definition querySelector_class :: "jsstring \<Rightarrow> page \<Rightarrow> nat option" where
  "querySelector_class c p = first (querySelectorAll_class c p)"

definition querySelectorAll_section_id :: "page \<Rightarrow> nat list" where
  "querySelectorAll_section_id p = matching (\<lambda>e. localName e = js ''section'' \<and> id_attr e \<noteq> None) p"

definition upd :: "nat \<Rightarrow> (element \<Rightarrow> element) \<Rightarrow> page \<Rightarrow> page" where
  "upd r f p = p\<lparr>elements := (elements p)[r := f (elements p ! r)]\<rparr>"

definition forEach :: "nat list \<Rightarrow> (element \<Rightarrow> element) \<Rightarrow> page \<Rightarrow> page" where
  "forEach rs f p = fold (\<lambda>r. upd r f) rs p"

text \<open>
  Assigning to \<open>textContent\<close> removes all children of the element and makes the string
  its text. The children removed, with all they contain, are no longer in the
  document, while references to them that the script holds stay valid.
\<close>

definition setTextContent :: "nat \<Rightarrow> jsstring \<Rightarrow> page \<Rightarrow> page" where
  "setTextContent el v p =
     (upd el (\<lambda>x. x\<lparr>textContent := v\<rparr>) p)\<lparr>detached := detached p \<union> set (children_of p el)\<rparr>"

section \<open>Form validation\<close>

text \<open>
  \<open>labels[fieldName]\<close> finds the three own keys of the object and, for the names of
  the members of \<open>Object.prototype\<close>, the inherited member, which is truthy and which the
  template literal then renders as a string of the engine's choosing; the model leaves
  that string unspecified. For every other name the lookup is \<open>undefined\<close> and the
  label is the name itself.
\<close>

definition objectPrototypeKeys :: "jsstring list" where
  "objectPrototypeKeys = map js [''constructor'', ''__defineGetter__'', ''__defineSetter__'',
     ''hasOwnProperty'', ''__lookupGetter__'', ''__lookupSetter__'', ''isPrototypeOf'',
     ''propertyIsEnumerable'', ''toString'', ''valueOf'', ''__proto__'', ''toLocaleString'']"

definition inheritedText :: "jsstring \<Rightarrow> jsstring" where
  "inheritedText = undefined"

definition getFieldLabel :: "jsstring \<Rightarrow> jsstring" where
  "getFieldLabel fieldName =
     (case map_of [(js ''name'', js ''Nama''), (js ''email'', js ''Email''),
                   (js ''message'', js ''Pesan'')] fieldName of
        Some l \<Rightarrow> (if l = [] then fieldName else l)
      | None \<Rightarrow> if fieldName \<in> set objectPrototypeKeys then inheritedText fieldName
                else fieldName)"

text \<open>
  \<open>showError\<close> and \<open>validateField\<close> work on a form control, whose \<open>name\<close> and \<open>value\<close>
  are strings, and on the element that displays its error.
\<close>

definition showError :: "nat \<Rightarrow> nat option \<Rightarrow> jsstring \<Rightarrow> page \<Rightarrow> page" where
  "showError field errorElement message p =
     (let p1 = upd field (classList_add (js ''error'')) p
      in case errorElement of
           None \<Rightarrow> p1
         | Some e \<Rightarrow> setTextContent e message p1)"

definition validateField :: "nat \<Rightarrow> page \<Rightarrow> bool \<times> page" where
  "validateField field p =
     (let v = trim (value_prop (elements p ! field));
          fieldName = name_prop (elements p ! field);
          errorElement = getElementById (fieldName @ js ''Error'') p;
          p1 = upd field (classList_remove (js ''error'')) p;
          p2 = (case errorElement of
                  None \<Rightarrow> p1
                | Some e \<Rightarrow> setTextContent e [] p1)
      in if v = [] then
           (False, showError field errorElement (getFieldLabel fieldName @ js '' harus diisi'') p2)
         else if fieldName = js ''email'' \<and> \<not> regex_test emailRegex v then
           (False, showError field errorElement (js ''Format email tidak valid'') p2)
         else (True, p2))"

text \<open>
  A dispatched event: its target and whether \<open>preventDefault\<close> has been called.
\<close>

record event =
  target :: nat
  defaultPrevented :: bool

definition preventDefault :: "event \<Rightarrow> event" where
  "preventDefault e = e\<lparr>defaultPrevented := True\<rparr>"

definition clearErrors :: "page \<Rightarrow> page" where
  "clearErrors p =
     (let errorElements = querySelectorAll_class (js ''form-error'') p;
          p1 = fold (\<lambda>el. setTextContent el []) errorElements p;
          inputs = querySelectorAll_class (js ''form-input'') p1
      in forEach inputs (classList_remove (js ''error'')) p1)"

definition setTimeout :: "nat \<Rightarrow> nat \<Rightarrow> page \<Rightarrow> page" where
  "setTimeout el delay p = p\<lparr>timers := timers p @ [(clock p + delay, el)]\<rparr>"

definition showSuccessMessage :: "page \<Rightarrow> page" where
  "showSuccessMessage p =
     (case getElementById (js ''formSuccess'') p of
        None \<Rightarrow> p
      | Some successElement \<Rightarrow>
          (let p1 = setTextContent successElement
                      (js ''Pesan berhasil dikirim! Terima kasih.'') p;
               p2 = upd successElement (classList_add (js ''show'')) p1
           in setTimeout successElement 5000 p2))"

text \<open>
  \<open>form.reset()\<close> is the browser's: every control owned by the form gets its default
  value back. A control keeps the form owner it had when the page was loaded as long
  as it is in the same tree as the form (for a control inside its form: as long as the
  form is still among its ancestors), and loses it when it is taken out of that tree.
\<close>

definition form_reset :: "nat \<Rightarrow> page \<Rightarrow> page" where
  "form_reset form p =
     forEach (filter (\<lambda>r. form_owner (elements p ! r) = Some form \<and> treeRoot p r = treeRoot p form)
                [0..<length (elements p)])
       (\<lambda>x. x\<lparr>value_prop := defaultValue x\<rparr>) p"

text \<open>
  The submit handler. \<open>validateField\<close> reads \<open>field.value\<close> first, so a field that
  \<open>getElementById\<close> did not find raises a TypeError at that call, after the effects
  of the calls before it. Only a form element has the method \<open>reset\<close>, so the call
  \<open>form.reset()\<close> raises a TypeError when the target of the event is another element.
\<close>

definition handleFormSubmit :: "event \<Rightarrow> page \<Rightarrow> outcome \<times> event \<times> page" where
  "handleFormSubmit e p =
     (let e1 = preventDefault e;
          form = target e1;
          nameInput = getElementById (js ''name'') p;
          emailInput = getElementById (js ''email'') p;
          messageInput = getElementById (js ''message'') p;
          p1 = clearErrors p;
          isValid = True
      in case nameInput of
           None \<Rightarrow> (Threw TypeError, e1, p1)
         | Some n \<Rightarrow>
            (let (r1, p2) = validateField n p1;
                 isValid1 = (if \<not> r1 then False else isValid)
             in case emailInput of
                  None \<Rightarrow> (Threw TypeError, e1, p2)
                | Some m \<Rightarrow>
                   (let (r2, p3) = validateField m p2;
                        isValid2 = (if \<not> r2 then False else isValid1)
                    in case messageInput of
                         None \<Rightarrow> (Threw TypeError, e1, p3)
                       | Some g \<Rightarrow>
                          (let (r3, p4) = validateField g p3;
                               isValid3 = (if \<not> r3 then False else isValid2)
                           in if isValid3 then
                                (let p5 = showSuccessMessage p4
                                 in if localName (elements p ! form) = js ''form''
                                    then (Done, e1, form_reset form p5)
                                    else (Threw TypeError, e1, p5))
                              else (Done, e1, p4)))))"

text \<open>
  Time passing with no other event: the clock moves on by \<open>ms\<close> and every pending
  callback that is due by then runs, in the order the callbacks were scheduled (all
  are scheduled with the same delay, so this is the order of their due times).
\<close>

definition advance :: "nat \<Rightarrow> page \<Rightarrow> page" where
  "advance ms p =
     (let t = clock p + ms;
          due = filter (\<lambda>(d, el). d \<le> t) (timers p);
          rest = filter (\<lambda>(d, el). \<not> d \<le> t) (timers p)
      in fold (\<lambda>(d, el). upd el (classList_remove (js ''show''))) due (p\<lparr>clock := t, timers := rest\<rparr>))"

section \<open>Navigation\<close>

text \<open>
  \<open>updateActiveMenuItem\<close> has two loops: the first, here \<open>currentSectionOf\<close>, finds
  the current section, the second marks the links. \<open>currentSection\<close> is a string or,
  were \<open>getAttribute\<close> to return it, \<open>null\<close>; the template literal prints \<open>null\<close>
  as the four letters. The scroll position and the end of a section are sums of
  doubles, so they are rounded.
\<close>

definition template :: "jsstring option \<Rightarrow> jsstring" where
  "template v = (case v of None \<Rightarrow> js ''null'' | Some s \<Rightarrow> s)"

definition currentSectionOf :: "page \<Rightarrow> jsstring option" where
  "currentSectionOf p =
     (let sections = querySelectorAll_section_id p;
          scrollPosition = toDouble (pageYOffset p + 100)
      in fold (\<lambda>section currentSection.
                 (let sectionTop = offsetTop (elements p ! section);
                      sectionHeight = offsetHeight (elements p ! section)
                  in if scrollPosition \<ge> of_int sectionTop \<and>
                        scrollPosition < toDouble (of_int sectionTop + of_int sectionHeight)
                     then id_attr (elements p ! section) else currentSection))
           sections (Some []))"

definition updateActiveMenuItem :: "page \<Rightarrow> page" where
  "updateActiveMenuItem p =
     (let navLinks = querySelectorAll_class (js ''nav-link'') p;
          currentSection = currentSectionOf p
      in forEach navLinks
           (\<lambda>link. (let l1 = classList_remove (js ''active'') link
                     in if href_attr l1 = Some (js ''#'' @ template currentSection)
                        then classList_add (js ''active'') l1 else l1))
           p)"

definition smoothScrollTo :: "nat \<Rightarrow> page \<Rightarrow> page" where
  "smoothScrollTo tgt p =
     (let headerOffset = 80;
          elementPosition = rectTop (elements p ! tgt);
          offsetPosition = toDouble (toDouble (elementPosition + pageYOffset p) - headerOffset)
      in p\<lparr>scrollToCalls := scrollToCalls p @ [offsetPosition]\<rparr>)"

definition startsWith :: "jschar \<Rightarrow> jsstring \<Rightarrow> bool" where
  "startsWith c s = (case s of [] \<Rightarrow> False | x # _ \<Rightarrow> x = c)"

text \<open>
  The click listener of a navigation link. Reading a property of \<open>null\<close> raises a
  TypeError: at \<open>href.startsWith\<close> when the link has no \<open>href\<close>, at \<open>navMenu.classList\<close>
  when no element has the class \<open>nav-menu\<close>, and at \<open>navToggle.classList\<close> when the
  menu is open and no element has the class \<open>nav-toggle\<close>.
\<close>

definition navLinkClick :: "nat \<Rightarrow> event \<Rightarrow> page \<Rightarrow> outcome \<times> event \<times> page" where
  "navLinkClick link e p =
     (case href_attr (elements p ! link) of
        None \<Rightarrow> (Threw TypeError, e, p)
      | Some href \<Rightarrow>
          if startsWith 0x23 href then
            (let e1 = preventDefault e;
                 targetId = drop 1 href;
                 targetSection = getElementById targetId p
             in case targetSection of
                  None \<Rightarrow> (Done, e1, p)
                | Some ts \<Rightarrow>
                   (let p1 = smoothScrollTo ts p;
                        navMenu = querySelector_class (js ''nav-menu'') p1;
                        navToggle = querySelector_class (js ''nav-toggle'') p1
                    in case navMenu of
                         None \<Rightarrow> (Threw TypeError, e1, p1)
                       | Some m \<Rightarrow>
                           if classList_contains (js ''active'') (elements p1 ! m) then
                             (let p2 = upd m (classList_remove (js ''active'')) p1
                              in case navToggle of
                                   None \<Rightarrow> (Threw TypeError, e1, p2)
                                 | Some t \<Rightarrow> (Done, e1, upd t (classList_remove (js ''active'')) p2))
                           else (Done, e1, p1)))
          else (Done, e, p))"

section \<open>Mobile menu\<close>

text \<open>
  \<open>initMobileMenu\<close> registers its two listeners only when both elements exist; the
  listeners keep the two elements found then.
\<close>

definition initMobileMenu :: "page \<Rightarrow> (nat \<times> nat) option" where
  "initMobileMenu p =
     (case (querySelector_class (js ''nav-toggle'') p, querySelector_class (js ''nav-menu'') p) of
        (Some navToggle, Some navMenu) \<Rightarrow> Some (navToggle, navMenu)
      | _ \<Rightarrow> None)"

definition navToggleClick :: "nat \<times> nat \<Rightarrow> page \<Rightarrow> page" where
  "navToggleClick tm p =
     (case tm of (navToggle, navMenu) \<Rightarrow>
        upd navToggle (classList_toggle (js ''active''))
          (upd navMenu (classList_toggle (js ''active'')) p))"

text \<open>\<open>a.contains(b)\<close>: the node \<open>a\<close> lies on the path from \<open>b\<close> to the root.\<close>

definition node_contains :: "nat \<Rightarrow> nat \<Rightarrow> page \<Rightarrow> bool" where
  "node_contains a b p \<longleftrightarrow> a \<in> set (event_path p b)"

definition documentClick :: "nat \<times> nat \<Rightarrow> event \<Rightarrow> page \<Rightarrow> page" where
  "documentClick tm e p =
     (case tm of (navToggle, navMenu) \<Rightarrow>
        (let isClickInsideNav = node_contains navMenu (target e) p \<or> node_contains navToggle (target e) p
         in if \<not> isClickInsideNav \<and> classList_contains (js ''active'') (elements p ! navMenu) then
              upd navToggle (classList_remove (js ''active''))
                (upd navMenu (classList_remove (js ''active'')) p)
            else p))"

text \<open>
  The listeners registered when the document has loaded: \<open>initNavigation\<close> gives every
  navigation link a click listener, \<open>initMobileMenu\<close> the toggle button and the document.
  A click is the user's, on an element of the document; it bubbles from its target to
  the document. On each node of the path the
  listeners registered there run in the order of their registration (the link listener
  of \<open>initNavigation\<close> before the toggle listener of \<open>initMobileMenu\<close>); an exception
  in a listener does not stop the others. The document's listener runs last.
\<close>

record listeners =
  navLinks :: "nat list"
  mobileMenu :: "(nat \<times> nat) option"

definition initNavigation :: "page \<Rightarrow> nat list" where
  "initNavigation p = querySelectorAll_class (js ''nav-link'') p"

definition init :: "page \<Rightarrow> listeners" where
  "init p = \<lparr>navLinks = initNavigation p, mobileMenu = initMobileMenu p\<rparr>"

definition at_node :: "listeners \<Rightarrow> nat \<Rightarrow> event \<times> page \<Rightarrow> event \<times> page" where
  "at_node L node ep =
     (let ep1 = (if node \<in> set (navLinks L) then snd (navLinkClick node (fst ep) (snd ep)) else ep)
      in case mobileMenu L of
           None \<Rightarrow> ep1
         | Some tm \<Rightarrow> if node = fst tm then (fst ep1, navToggleClick tm (snd ep1)) else ep1)"

definition click :: "listeners \<Rightarrow> nat \<Rightarrow> page \<Rightarrow> event \<times> page" where
  "click L tgt p =
     (let ep = fold (at_node L) (event_path p tgt) (\<lparr>target = tgt, defaultPrevented = False\<rparr>, p)
      in case mobileMenu L of
           None \<Rightarrow> ep
         | Some tm \<Rightarrow> (fst ep, documentClick tm (fst ep) (snd ep)))"

section \<open>Specification-side notions and example markup\<close>

text \<open>
  The email pattern in the specification's words: non-whitespace, non-\<open>@\<close> code units,
  an \<open>@\<close>, non-whitespace, non-\<open>@\<close> code units, a dot, non-whitespace, non-\<open>@\<close> code
  units, each run non-empty.
\<close>

definition spec_email_pattern :: "jsstring \<Rightarrow> bool" where
  "spec_email_pattern v \<longleftrightarrow>
     (\<exists>a b c. v = a @ [0x40] @ b @ [0x2E] @ c \<and> a \<noteq> [] \<and> b \<noteq> [] \<and> c \<noteq> [] \<and>
        (\<forall>x \<in> set a \<union> set b \<union> set c. \<not> isWhiteSpace x \<and> x \<noteq> 0x40))"

text \<open>
  Closed forms used in the proofs: the message \<open>validateField\<close> shows for a field name
  and a value (\<open>None\<close> when the field is valid), and the element it leaves at each
  position.
\<close>

definition verdict :: "jsstring \<Rightarrow> jsstring \<Rightarrow> jsstring option" where
  "verdict n v =
     (if trim v = [] then Some (getFieldLabel n @ js '' harus diisi'')
      else if n = js ''email'' \<and> \<not> regex_test emailRegex (trim v)
      then Some (js ''Format email tidak valid'')
      else None)"

definition validated :: "nat \<Rightarrow> page \<Rightarrow> nat \<Rightarrow> element" where
  "validated field p j =
     (let n = name_prop (elements p ! field);
          m = verdict n (value_prop (elements p ! field));
          e = elements p ! j;
          e1 = (if j = field
                then e\<lparr>classList := filter (\<lambda>x. x \<noteq> js ''error'') (classList e) @
                                      (if m = None then [] else [js ''error''])\<rparr>
                else e)
      in if getElementById (n @ js ''Error'') p = Some j
         then e1\<lparr>textContent := (case m of None \<Rightarrow> [] | Some t \<Rightarrow> t)\<rparr> else e1)"

text \<open>
  Example markup after the markup contract: a form control named \<open>n\<close> with value \<open>v\<close>
  and the element that displays its error.
\<close>

definition blank :: element where
  "blank = \<lparr>localName = js ''div'', id_attr = None, href_attr = None, classList = [],
     textContent = [], name_prop = [], value_prop = [], defaultValue = [], form_owner = None,
     parentNode = None, offsetTop = 0, offsetHeight = 0, rectTop = 0\<rparr>"

definition page_of :: "element list \<Rightarrow> page" where
  "page_of es = \<lparr>elements = es, detached = {}, pageYOffset = 0, scrollToCalls = [], clock = 0,
     timers = []\<rparr>"

definition input_el :: "string \<Rightarrow> string \<Rightarrow> element" where
  "input_el n v = blank\<lparr>localName := js ''input'', id_attr := Some (js n),
     classList := [js ''form-input''], name_prop := js n, value_prop := js v\<rparr>"

definition error_el :: "string \<Rightarrow> element" where
  "error_el n = blank\<lparr>localName := js ''span'', id_attr := Some (js (n @ ''Error'')),
     classList := [js ''form-error'']\<rparr>"

definition link_el :: "string \<Rightarrow> element" where
  "link_el h = blank\<lparr>localName := js ''a'', href_attr := Some (js h), classList := [js ''nav-link'']\<rparr>"

definition section_el :: "string \<Rightarrow> int \<Rightarrow> int \<Rightarrow> element" where
  "section_el i t h = blank\<lparr>localName := js ''section'', id_attr := Some (js i), offsetTop := t,
     offsetHeight := h\<rparr>"

text \<open>
  The sections, in document order, whose interval \<open>[top, top + height)\<close> contains the
  point \<open>pageYOffset + 100\<close>, both sums being those of the script's numbers, and whether
  an element carries the active class. In the markup contract of the specification
  every navigation link that is a fragment reference resolves to an element of the
  document.
\<close>

definition containsPoint :: "page \<Rightarrow> nat \<Rightarrow> bool" where
  "containsPoint p s \<longleftrightarrow>
     of_int (offsetTop (elements p ! s)) \<le> toDouble (pageYOffset p + 100) \<and>
     toDouble (pageYOffset p + 100) <
       toDouble (of_int (offsetTop (elements p ! s)) + of_int (offsetHeight (elements p ! s)))"


definition hitSections :: "page \<Rightarrow> nat list" where
  "hitSections p = filter (containsPoint p) (querySelectorAll_section_id p)"


definition isActive :: "page \<Rightarrow> nat \<Rightarrow> bool" where
  "isActive p l \<longleftrightarrow> classList_contains (js ''active'') (elements p ! l)"

text \<open>The positions of the elements of a list that satisfy a predicate, counted from \<open>k\<close>.\<close>

fun indices_from :: "nat \<Rightarrow> (element \<Rightarrow> bool) \<Rightarrow> element list \<Rightarrow> nat list" where
  "indices_from k P [] = []"
| "indices_from k P (x # xs) =
     (if P x then k # indices_from (Suc k) P xs else indices_from (Suc k) P xs)"

text \<open>
  More example markup: the menu panel and its toggle button, the contact form, its
  controls (owned by the form, with empty default values) and the success element.
\<close>

definition menu_el :: element where
  "menu_el = blank\<lparr>localName := js ''ul'', classList := [js ''nav-menu'']\<rparr>"

definition toggle_el :: element where
  "toggle_el = blank\<lparr>localName := js ''button'', classList := [js ''nav-toggle'']\<rparr>"

definition form_el :: element where
  "form_el = blank\<lparr>localName := js ''form'', id_attr := Some (js ''contactForm'')\<rparr>"

definition success_el :: element where
  "success_el = blank\<lparr>id_attr := Some (js ''formSuccess''), classList := [js ''form-success'']\<rparr>"

definition control_el :: "string \<Rightarrow> string \<Rightarrow> element" where
  "control_el n v = (input_el n v)\<lparr>form_owner := Some 0\<rparr>"

definition contact_page :: "string \<Rightarrow> string \<Rightarrow> string \<Rightarrow> page" where
  "contact_page a b c = page_of [form_el, control_el ''name'' a, error_el ''name'',
     control_el ''email'' b, error_el ''email'', control_el ''message'' c, error_el ''message'',
     success_el]"



definition nested_page :: page where
  "nested_page = page_of [form_el, control_el ''name'' '''',
     blank\<lparr>classList := [js ''form-error'']\<rparr>, (error_el ''name'')\<lparr>parentNode := Some 2\<rparr>,
     control_el ''email'' ''a@b.com'', error_el ''email'', control_el ''message'' ''hi'',
     error_el ''message'', success_el]"

definition submitEvent :: event where
  "submitEvent = \<lparr>target = 0, defaultPrevented = False\<rparr>"

text \<open>The user typing into a control sets its value.\<close>

definition typeInto :: "nat \<Rightarrow> jsstring \<Rightarrow> page \<Rightarrow> page" where
  "typeInto f v p = upd f (\<lambda>x. x\<lparr>value_prop := v\<rparr>) p"

text \<open>
  A control is valid when its trimmed value is non-empty and, for the email control,
  matches the pattern. \<open>hasError\<close> and \<open>isShown\<close> read the error class and the
  visibility class; \<open>submitPage\<close> is the page the submit handler leaves and
  \<open>submitted\<close> the page after clearing and the three validations.
\<close>

definition fieldValid :: "page \<Rightarrow> nat \<Rightarrow> bool" where
  "fieldValid p f \<longleftrightarrow>
     trim (value_prop (elements p ! f)) \<noteq> [] \<and>
     (name_prop (elements p ! f) = js ''email'' \<longrightarrow>
        spec_email_pattern (trim (value_prop (elements p ! f))))"

definition hasError :: "page \<Rightarrow> nat \<Rightarrow> bool" where
  "hasError p f \<longleftrightarrow> classList_contains (js ''error'') (elements p ! f)"

definition isShown :: "page \<Rightarrow> nat \<Rightarrow> bool" where
  "isShown p s \<longleftrightarrow> classList_contains (js ''show'') (elements p ! s)"

definition submitPage :: "event \<Rightarrow> page \<Rightarrow> page" where
  "submitPage e p = snd (snd (handleFormSubmit e p))"

definition successText :: jsstring where
  "successText = js ''Pesan berhasil dikirim! Terima kasih.''"

definition submitted :: "nat \<Rightarrow> nat \<Rightarrow> nat \<Rightarrow> page \<Rightarrow> page" where
  "submitted n m g p =
     snd (validateField g (snd (validateField m (snd (validateField n (clearErrors p))))))"

text \<open>
  Two pages have the same markup when their elements agree on id, name, form owner,
  default value and parent, and the same elements are out of their parents. A page is
  \<open>written\<close> from another when it differs from it at most in class lists and text
  contents and in that children of elements have been taken out of them.
\<close>

definition sameMarkup :: "page \<Rightarrow> page \<Rightarrow> bool" where
  "sameMarkup p q \<longleftrightarrow>
     length (elements q) = length (elements p) \<and>
     (\<forall>j < length (elements p).
        id_attr (elements q ! j) = id_attr (elements p ! j) \<and>
        name_prop (elements q ! j) = name_prop (elements p ! j) \<and>
        form_owner (elements q ! j) = form_owner (elements p ! j) \<and>
        defaultValue (elements q ! j) = defaultValue (elements p ! j) \<and>
        parentNode (elements q ! j) = parentNode (elements p ! j)) \<and>
     detached q = detached p"

definition written :: "page \<Rightarrow> page \<Rightarrow> bool" where
  "written p q \<longleftrightarrow>
     length (elements q) = length (elements p) \<and>
     (\<forall>j < length (elements p).
        (elements q ! j)\<lparr>classList := classList (elements p ! j),
                          textContent := textContent (elements p ! j)\<rparr> = elements p ! j) \<and>
     detached p \<subseteq> detached q \<and>
     (\<forall>c \<in> detached q - detached p.
        c < length (elements p) \<and> parentNode (elements p ! c) \<noteq> None)"

text \<open>
  A run of the contact form: a valid submission at time 0, then 3000 ms later the form
  filled in again and submitted a second time.
\<close>

definition first_submit :: page where
  "first_submit = submitPage submitEvent (contact_page ''Jane'' ''a@b.com'' ''hi'')"

definition refilled :: page where
  "refilled = typeInto 1 (js ''Jane'') (typeInto 3 (js ''a@b.com'') (typeInto 5 (js ''hi'')
     (advance 3000 first_submit)))"

definition second_submit :: page where
  "second_submit = submitPage submitEvent refilled"

text \<open>
  The page after a sequence of clicks, and pages that differ at most in the presence of
  the class \<open>active\<close> in class lists and in the recorded scroll calls.
\<close>

definition clicks :: "listeners \<Rightarrow> nat list \<Rightarrow> page \<Rightarrow> page" where
  "clicks L tgts p = fold (\<lambda>x q. snd (click L x q)) tgts p"

definition onlyActive :: "page \<Rightarrow> page \<Rightarrow> bool" where
  "onlyActive p q \<longleftrightarrow>
     length (elements q) = length (elements p) \<and>
     (\<forall>j < length (elements p).
        (elements q ! j)\<lparr>classList := classList (elements p ! j)\<rparr> = elements p ! j \<and>
        (\<forall>c. c \<noteq> js ''active'' \<longrightarrow>
           (c \<in> set (classList (elements q ! j)) \<longleftrightarrow> c \<in> set (classList (elements p ! j))))) \<and>
     detached q = detached p"

definition menu_page :: page where
  "menu_page = page_of [toggle_el, menu_el, (link_el ''#about'')\<lparr>parentNode := Some 1\<rparr>,
     section_el ''about'' 0 600]"

text \<open>
  The listeners of \<open>initMobileMenu\<close> hold the first elements of class \<open>nav-toggle\<close> and
  \<open>nav-menu\<close>; \<open>menuFound\<close> says that a page still has them there. A navigation link
  is followed when its href is a fragment reference that resolves to an element.
\<close>

definition menuFound :: "nat \<times> nat \<Rightarrow> page \<Rightarrow> bool" where
  "menuFound tm p \<longleftrightarrow>
     querySelector_class (js ''nav-toggle'') p = Some (fst tm) \<and>
     querySelector_class (js ''nav-menu'') p = Some (snd tm)"

definition goodLink :: "page \<Rightarrow> nat \<Rightarrow> bool" where
  "goodLink p l \<longleftrightarrow>
     (case href_attr (elements p ! l) of
        None \<Rightarrow> False
      | Some href \<Rightarrow> startsWith 0x23 href \<and> getElementById (drop 1 href) p \<noteq> None)"

section \<open>Basic facts about strings, queries and updates\<close>

lemma unat_js_char: "unat (of_nat (of_char c) :: 16 word) = of_char c"
proof -
  have "(of_char c :: nat) < 256" by (rule nat_of_char_less_256)
  also have "(256::nat) < 2 ^ LENGTH(16)" by simp
  finally have "(of_char c :: nat) < 2 ^ LENGTH(16)" .
  then show ?thesis by (simp only: unat_of_nat mod_less)
qed

lemma js_char_inj: "(of_nat (of_char c) :: 16 word) = of_nat (of_char d) \<longleftrightarrow> c = d"
proof
  assume "(of_nat (of_char c) :: 16 word) = of_nat (of_char d)"
  then have "unat (of_nat (of_char c) :: 16 word) = unat (of_nat (of_char d) :: 16 word)" by simp
  then have "(of_char c :: nat) = of_char d" by (simp only: unat_js_char)
  then show "c = d" by simp
qed simp

lemma js_eq_iff [simp]: "js s = js t \<longleftrightarrow> s = t"
  unfolding js_def by (rule inj_map_eq_map) (simp add: inj_on_def js_char_inj)

lemma js_append [simp]: "js s @ js t = js (s @ t)"
  by (simp add: js_def)

lemma js_Nil [simp]: "js [] = []" "js s = [] \<longleftrightarrow> s = []" "[] = js s \<longleftrightarrow> s = []"
  by (auto simp add: js_def)

subsection \<open>Rounding to a double\<close>

lemma roundTiesToEven_of_int [simp]: "roundTiesToEven (of_int n) = n"
  by (simp add: roundTiesToEven_def)

lemma scaled_down:
  fixes E k :: nat
  assumes "k \<le> E"
  shows "real_of_int n * 2 ^ E / 2 ^ k = of_int (n * 2 ^ (E - k))"
proof -
  from assms have "(2::real) ^ E = 2 ^ (E - k) * 2 ^ k" by (simp add: power_add [symmetric])
  then show ?thesis by simp
qed

lemma scaled_up:
  fixes E k :: nat
  assumes "k \<le> E"
  shows "real_of_int (n * 2 ^ (E - k)) * 2 ^ k / 2 ^ E = of_int n"
proof -
  from assms have "(2::real) ^ E = 2 ^ (E - k) * 2 ^ k" by (simp add: power_add [symmetric])
  then show ?thesis by simp
qed

text \<open>An integer below \<open>2 ^ 53\<close> in magnitude is a double, so rounding leaves it as it is.\<close>

lemma toDouble_of_int:
  assumes "\<bar>n\<bar> < 2 ^ 53"
  shows "toDouble (of_int n) = of_int n"
proof (cases "n = 0")
  case True
  then show ?thesis by (simp add: toDouble_def roundTiesToEven_def)
next
  case False
  define k where "k = nat (bitlen (\<bar>n\<bar> * 2 ^ 1074) - 53)"
  from False have pos: "0 < \<bar>n\<bar>" by simp
  from assms have "bitlen \<bar>n\<bar> \<le> 53" by (simp add: bitlen_le_iff_power)
  then have k: "k \<le> 1074" unfolding k_def bitlen_pow2 [OF pos] by simp
  have fl: "\<lfloor>\<bar>real_of_int n * 2 ^ 1074\<bar>\<rfloor> = \<bar>n\<bar> * 2 ^ 1074"
  proof -
    have "\<bar>real_of_int n * 2 ^ 1074\<bar> = of_int (\<bar>n\<bar> * 2 ^ 1074)" by (simp add: abs_mult)
    then show ?thesis by (simp only: floor_of_int)
  qed
  note q = scaled_down [OF k, of n] and u = scaled_up [OF k, of n]
  show ?thesis
    unfolding toDouble_def Let_def fl k_def [symmetric] q roundTiesToEven_of_int u ..
qed

lemma toDouble_numeral [simp]:
  "toDouble 100 = 100" "toDouble 600 = 600" "toDouble 550 = 550" "toDouble 1100 = 1100"
  "toDouble 201 = 201"
  using toDouble_of_int [of 100] toDouble_of_int [of 600] toDouble_of_int [of 550]
    toDouble_of_int [of 1100] toDouble_of_int [of 201]
  by simp_all


subsection \<open>Paths and trees\<close>

lemma path_up_le: "y \<in> set (path_up es r) \<Longrightarrow> y \<le> r"
proof (induction es r rule: path_up.induct)
  case (1 es r)
  show ?case
  proof (cases "parentNode (es ! r)")
    case None
    with "1.prems" show ?thesis by (simp add: path_up.simps [of es r])
  next
    case (Some q)
    show ?thesis
    proof (cases "q < r")
      case True
      with Some "1.prems" have "y = r \<or> y \<in> set (path_up es q)"
        by (simp add: path_up.simps [of es r])
      with "1.IH" [OF Some True] True show ?thesis by auto
    next
      case False
      with Some "1.prems" show ?thesis by (simp add: path_up.simps [of es r])
    qed
  qed
qed

lemma distinct_path_up: "distinct (path_up es r)"
proof (induction es r rule: path_up.induct)
  case (1 es r)
  show ?case
  proof (cases "parentNode (es ! r)")
    case None
    then show ?thesis by (simp add: path_up.simps [of es r])
  next
    case (Some q)
    show ?thesis
    proof (cases "q < r")
      case True
      then have "r \<notin> set (path_up es q)" using path_up_le [of r es q] by auto
      with "1.IH" [OF Some True] Some True show ?thesis by (simp add: path_up.simps [of es r])
    next
      case False
      with Some show ?thesis by (simp add: path_up.simps [of es r])
    qed
  qed
qed

lemma path_up_cong:
  assumes "\<And>j. j \<le> r \<Longrightarrow> parentNode (es' ! j) = parentNode (es ! j)"
  shows "path_up es' r = path_up es r"
  using assms
proof (induction es r rule: path_up.induct)
  case (1 es r)
  have p: "parentNode (es' ! r) = parentNode (es ! r)" by (simp add: "1.prems")
  show ?case
  proof (cases "parentNode (es ! r)")
    case None
    with p show ?thesis by (simp add: path_up.simps [of es r] path_up.simps [of es' r])
  next
    case (Some q)
    show ?thesis
    proof (cases "q < r")
      case True
      have "path_up es' q = path_up es q"
        using True by (intro "1.IH" [OF Some True]) (simp add: "1.prems")
      with p Some True show ?thesis by (simp add: path_up.simps [of es r] path_up.simps [of es' r])
    next
      case False
      with p Some show ?thesis by (simp add: path_up.simps [of es r] path_up.simps [of es' r])
    qed
  qed
qed

lemma path_up_root:
  assumes "parentNode (es ! r) = None"
  shows "path_up es r = [r]"
  using assms by (simp add: path_up.simps [of es r])

lemma event_path_cong:
  assumes "length (elements q) = length (elements p)" "r < length (elements p)"
    and "\<And>j. j < length (elements p) \<Longrightarrow> parentNode (elements q ! j) = parentNode (elements p ! j)"
  shows "event_path q r = event_path p r"
  unfolding event_path_def using assms by (intro path_up_cong) simp

lemma isConnected_iff: "isConnected p r \<longleftrightarrow> (\<forall>a \<in> set (event_path p r). a \<notin> detached p)"
  by (auto simp add: isConnected_def treeRoot_def find_None_iff)

lemma isConnected_empty: "detached p = {} \<Longrightarrow> isConnected p r"
  by (simp add: isConnected_iff)

lemma treeRoot_cong:
  assumes "event_path q r = event_path p r" "detached q = detached p"
  shows "treeRoot q r = treeRoot p r"
  using assms by (simp add: treeRoot_def)

lemma isConnected_cong:
  assumes "event_path q r = event_path p r" "detached q = detached p"
  shows "isConnected q r = isConnected p r"
  using assms by (simp add: isConnected_iff)

lemma isConnected_antimono:
  assumes "event_path q r = event_path p r" "detached p \<subseteq> detached q" "isConnected q r"
  shows "isConnected p r"
  using assms by (auto simp add: isConnected_iff)

lemma isConnected_self: "isConnected p r \<Longrightarrow> r \<notin> detached p"
  by (simp add: isConnected_iff event_path_def path_up.simps [of "elements p" r])

lemma children_of_cong:
  assumes "length (elements q) = length (elements p)"
    and "\<And>j. j < length (elements p) \<Longrightarrow> parentNode (elements q ! j) = parentNode (elements p ! j)"
  shows "children_of q el = children_of p el"
  unfolding children_of_def using assms by (auto intro: filter_cong)

lemma set_children_of:
  "set (children_of p el) = {c. c < length (elements p) \<and> parentNode (elements p ! c) = Some el \<and> el < c}"
  by (auto simp add: children_of_def)

subsection \<open>Queries and updates\<close>

lemma length_upd [simp]: "length (elements (upd r f p)) = length (elements p)"
  by (simp add: upd_def)

lemma nth_upd:
  "elements (upd r f p) ! j = (if j = r \<and> r < length (elements p) then f (elements p ! r) else elements p ! j)"
  by (cases "r < length (elements p)") (auto simp: upd_def list_update_beyond)

lemma upd_other [simp]:
  "pageYOffset (upd r f p) = pageYOffset p" "scrollToCalls (upd r f p) = scrollToCalls p"
  "clock (upd r f p) = clock p" "timers (upd r f p) = timers p" "detached (upd r f p) = detached p"
  by (simp_all add: upd_def)

lemma event_path_upd:
  assumes "\<And>e. parentNode (f e) = parentNode e"
  shows "event_path (upd r f p) j = event_path p j"
  unfolding event_path_def by (rule path_up_cong) (simp add: nth_upd assms)

lemma isConnected_upd:
  assumes "\<And>e. parentNode (f e) = parentNode e"
  shows "isConnected (upd r f p) j = isConnected p j"
  by (rule isConnected_cong) (simp_all add: event_path_upd assms)

lemma treeRoot_upd:
  assumes "\<And>e. parentNode (f e) = parentNode e"
  shows "treeRoot (upd r f p) j = treeRoot p j"
  by (rule treeRoot_cong) (simp_all add: event_path_upd assms)

lemma children_of_upd:
  assumes "\<And>e. parentNode (f e) = parentNode e"
  shows "children_of (upd r f p) el = children_of p el"
  by (rule children_of_cong) (simp_all add: nth_upd assms)

lemma parentNode_classList [simp]:
  "parentNode (classList_remove c e) = parentNode e" "parentNode (classList_add c e) = parentNode e"
  "parentNode (classList_toggle c e) = parentNode e"
  by (simp_all add: classList_remove_def classList_add_def classList_toggle_def)

lemma matching_cong:
  assumes "length (elements q) = length (elements p)"
    and "\<And>r. r < length (elements p) \<Longrightarrow> isConnected q r = isConnected p r"
    and "\<And>r. r < length (elements p) \<Longrightarrow> P (elements q ! r) = P (elements p ! r)"
  shows "matching P q = matching P p"
  unfolding matching_def using assms by (auto intro: filter_cong)

lemma matching_upd:
  assumes "\<And>e. P (f e) = P e" "\<And>e. parentNode (f e) = parentNode e"
  shows "matching P (upd r f p) = matching P p"
  by (rule matching_cong) (simp_all add: nth_upd assms isConnected_upd)

lemma getElementById_upd:
  assumes "\<And>e. id_attr (f e) = id_attr e" "\<And>e. parentNode (f e) = parentNode e"
  shows "getElementById i (upd r f p) = getElementById i p"
  by (simp add: getElementById_def matching_upd assms)

lemma first_Some: "first rs = Some r \<Longrightarrow> r \<in> set rs"
  by (auto simp: first_def split: list.splits)

lemma set_matching:
  "set (matching P p) = {r. r < length (elements p) \<and> isConnected p r \<and> P (elements p ! r)}"
  by (auto simp: matching_def)

lemma getElementById_Some:
  "getElementById i p = Some r \<Longrightarrow> r < length (elements p) \<and> id_attr (elements p ! r) = Some i"
  using first_Some [of "matching (\<lambda>e. id_attr e = Some i) p" r]
  by (auto simp: getElementById_def set_matching split: if_splits)

lemma first_append: "first (xs @ ys) = (case first xs of None \<Rightarrow> first ys | Some r \<Rightarrow> Some r)"
  by (cases xs) (simp_all add: first_def)

lemma first_filter_upt:
  "first (filter P [0..<n]) = Some x \<longleftrightarrow> x < n \<and> P x \<and> (\<forall>j < x. \<not> P j)"
proof (induction n arbitrary: x)
  case 0
  show ?case by (simp add: first_def)
next
  case (Suc n)
  show ?case
  proof (cases "first (filter P [0..<n])")
    case None
    have no: "\<not> P j" if "j < n" for j
    proof
      assume "P j"
      define y where "y = (LEAST k. P k)"
      have "P y" unfolding y_def using \<open>P j\<close> by (rule LeastI)
      moreover have "y \<le> j" unfolding y_def using \<open>P j\<close> by (rule Least_le)
      moreover have "\<not> P k" if "k < y" for k
        using that unfolding y_def by (rule not_less_Least)
      ultimately have "y < n \<and> P y \<and> (\<forall>k < y. \<not> P k)" using that by simp
      then have "first (filter P [0..<n]) = Some y" by (simp add: Suc.IH)
      with None show False by simp
    qed
    have "first (filter P [0..<Suc n]) = (if P n then Some n else None)"
      using None by (simp add: first_append) (simp add: first_def)
    with no show ?thesis by (auto simp add: less_Suc_eq)
  next
    case (Some y)
    with Suc.IH [of y] have y: "y < n" "P y" "\<forall>j < y. \<not> P j" by simp_all
    have eq: "first (filter P [0..<Suc n]) = Some y"
      using Some by (simp add: first_append)
    show ?thesis
    proof
      assume "first (filter P [0..<Suc n]) = Some x"
      with eq have "x = y" by simp
      with y show "x < Suc n \<and> P x \<and> (\<forall>j < x. \<not> P j)" by simp
    next
      assume x: "x < Suc n \<and> P x \<and> (\<forall>j < x. \<not> P j)"
      with y have "\<not> y < x" "\<not> x < y" by auto
      then have "x = y" by simp
      with eq show "first (filter P [0..<Suc n]) = Some x" by simp
    qed
  qed
qed

text \<open>
  \<open>getElementById\<close> returns the first element in document order that is in the
  document and has the id.
\<close>

lemma getElementById_iff:
  "getElementById i p = Some x \<longleftrightarrow>
     i \<noteq> [] \<and> x < length (elements p) \<and> isConnected p x \<and> id_attr (elements p ! x) = Some i \<and>
     (\<forall>j < x. \<not> (isConnected p j \<and> id_attr (elements p ! j) = Some i))"
  by (simp add: getElementById_def matching_def first_filter_upt)

lemma getElementById_connected: "getElementById i p = Some x \<Longrightarrow> isConnected p x"
  by (simp add: getElementById_iff)

lemma indices_from_filter:
  "indices_from k P xs = filter (\<lambda>r. P (xs ! (r - k))) [k..<k + length xs]"
proof (induction xs arbitrary: k)
  case Nil
  show ?case by simp
next
  case (Cons x xs)
  have "filter (\<lambda>r. P ((x # xs) ! (r - k))) [Suc k..<Suc k + length xs] =
        filter (\<lambda>r. P (xs ! (r - Suc k))) [Suc k..<Suc k + length xs]"
  proof (rule filter_cong [OF refl])
    fix r assume "r \<in> set [Suc k..<Suc k + length xs]"
    then have "r - k = Suc (r - Suc k)" by auto
    then show "P ((x # xs) ! (r - k)) = P (xs ! (r - Suc k))" by simp
  qed
  then show ?case
    by (simp add: upt_conv_Cons Cons.IH del: upt_Suc)
qed

lemma matching_eval: "detached p = {} \<Longrightarrow> matching P p = indices_from 0 P (elements p)"
  by (simp add: matching_def indices_from_filter isConnected_empty)

lemma length_forEach [simp]: "length (elements (forEach rs f p)) = length (elements p)"
  unfolding forEach_def by (induction rs arbitrary: p) simp_all

lemma forEach_other [simp]:
  "pageYOffset (forEach rs f p) = pageYOffset p" "scrollToCalls (forEach rs f p) = scrollToCalls p"
  "clock (forEach rs f p) = clock p" "timers (forEach rs f p) = timers p"
  "detached (forEach rs f p) = detached p"
  unfolding forEach_def by (induction rs arbitrary: p; simp)+

lemma forEach_nth:
  assumes "distinct rs" "j < length (elements p)"
  shows "elements (forEach rs f p) ! j = (if j \<in> set rs then f (elements p ! j) else elements p ! j)"
  using assms unfolding forEach_def
proof (induction rs arbitrary: p)
  case Nil
  show ?case by simp
next
  case (Cons r rs)
  from Cons.prems have "elements (fold (\<lambda>r. upd r f) rs (upd r f p)) ! j =
      (if j \<in> set rs then f (elements (upd r f p) ! j) else elements (upd r f p) ! j)"
    by (intro Cons.IH) simp_all
  with Cons.prems show ?case by (auto simp: nth_upd)
qed

lemma forEach_nth_idem:
  assumes "\<And>x. f (f x) = f x" "j < length (elements p)"
  shows "elements (forEach rs f p) ! j = (if j \<in> set rs then f (elements p ! j) else elements p ! j)"
  using assms(2) unfolding forEach_def
proof (induction rs arbitrary: p)
  case Nil
  show ?case by simp
next
  case (Cons r rs)
  from Cons.prems have "elements (fold (\<lambda>r. upd r f) rs (upd r f p)) ! j =
      (if j \<in> set rs then f (elements (upd r f p) ! j) else elements (upd r f p) ! j)"
    by (intro Cons.IH) simp_all
  with Cons.prems show ?case by (auto simp: nth_upd assms(1))
qed

lemma distinct_matching [simp]: "distinct (matching P p)"
  by (simp add: matching_def)

lemma page_eqI:
  fixes p q :: page
  assumes "elements p = elements q" "detached p = detached q" "pageYOffset p = pageYOffset q"
    "scrollToCalls p = scrollToCalls q" "clock p = clock q" "timers p = timers q"
  shows "p = q"
  using assms by simp

subsection \<open>Assigning a text\<close>

lemma setTextContent_simps [simp]:
  "elements (setTextContent el v p) = elements (upd el (\<lambda>x. x\<lparr>textContent := v\<rparr>) p)"
  "detached (setTextContent el v p) = detached p \<union> set (children_of p el)"
  "pageYOffset (setTextContent el v p) = pageYOffset p"
  "scrollToCalls (setTextContent el v p) = scrollToCalls p"
  "clock (setTextContent el v p) = clock p" "timers (setTextContent el v p) = timers p"
  by (simp_all add: setTextContent_def)

lemma setTextContent_alt:
  "setTextContent el v p =
     (upd el (\<lambda>x. x\<lparr>textContent := v\<rparr>) p)\<lparr>detached := detached p \<union> set (children_of p el)\<rparr>"
  by (simp add: setTextContent_def)

lemma children_of_setTextContent [simp]:
  "children_of (setTextContent el v p) a = children_of p a"
  by (rule children_of_cong) (simp_all add: nth_upd)

lemma event_path_setTextContent [simp]:
  "event_path (setTextContent el v p) r = event_path p r"
  unfolding event_path_def by (rule path_up_cong) (simp add: nth_upd)


section \<open>The email pattern is the pattern of the specification\<close>

lemma regex_test_Lit:
  "regex_test (Lit c # ps) s \<longleftrightarrow> (\<exists>b. s = c # b \<and> regex_test ps b)"
  by (cases s) auto

lemma regex_test_OneOrMore:
  "regex_test (OneOrMore P # ps) s \<longleftrightarrow>
     (\<exists>a b. s = a @ b \<and> a \<noteq> [] \<and> (\<forall>x\<in>set a. P x) \<and> regex_test ps b)"
proof (induction s)
  case Nil
  show ?case by simp
next
  case (Cons x xs)
  show ?case
  proof
    assume "regex_test (OneOrMore P # ps) (x # xs)"
    then have px: "P x" and alt: "regex_test (OneOrMore P # ps) xs \<or> regex_test ps xs"
      by simp_all
    from alt show "\<exists>a b. x # xs = a @ b \<and> a \<noteq> [] \<and> (\<forall>x\<in>set a. P x) \<and> regex_test ps b"
    proof
      assume "regex_test (OneOrMore P # ps) xs"
      then obtain a b where "xs = a @ b" "\<forall>y\<in>set a. P y" "regex_test ps b"
        using Cons.IH by blast
      with px have "x # xs = (x # a) @ b \<and> x # a \<noteq> [] \<and> (\<forall>y\<in>set (x # a). P y) \<and> regex_test ps b"
        by simp
      then show ?thesis by blast
    next
      assume "regex_test ps xs"
      with px have "x # xs = [x] @ xs \<and> [x] \<noteq> [] \<and> (\<forall>y\<in>set [x]. P y) \<and> regex_test ps xs"
        by simp
      then show ?thesis by blast
    qed
  next
    assume "\<exists>a b. x # xs = a @ b \<and> a \<noteq> [] \<and> (\<forall>x\<in>set a. P x) \<and> regex_test ps b"
    then obtain a b where ab: "x # xs = a @ b" "a \<noteq> []" "\<forall>y\<in>set a. P y" "regex_test ps b"
      by blast
    then obtain a' where a: "a = x # a'" "xs = a' @ b"
      by (cases a) auto
    show "regex_test (OneOrMore P # ps) (x # xs)"
    proof (cases "a' = []")
      case True
      with a ab show ?thesis by simp
    next
      case False
      with a ab have "regex_test (OneOrMore P # ps) xs"
        using Cons.IH by auto
      with a ab show ?thesis by simp
    qed
  qed
qed

lemma emailRegex_spec: "regex_test emailRegex v \<longleftrightarrow> spec_email_pattern v"
proof
  assume "regex_test emailRegex v"
  then obtain a r1 where 1: "v = a @ r1" "a \<noteq> []" "\<forall>x\<in>set a. notSpaceAt x"
      "regex_test [Lit 0x40, OneOrMore notSpaceAt, Lit 0x2E, OneOrMore notSpaceAt] r1"
    unfolding emailRegex_def regex_test_OneOrMore by blast
  then obtain r2 where 2: "r1 = 0x40 # r2" "regex_test [OneOrMore notSpaceAt, Lit 0x2E, OneOrMore notSpaceAt] r2"
    unfolding regex_test_Lit by blast
  then obtain b r3 where 3: "r2 = b @ r3" "b \<noteq> []" "\<forall>x\<in>set b. notSpaceAt x"
      "regex_test [Lit 0x2E, OneOrMore notSpaceAt] r3"
    unfolding regex_test_OneOrMore by blast
  then obtain r4 where 4: "r3 = 0x2E # r4" "regex_test [OneOrMore notSpaceAt] r4"
    unfolding regex_test_Lit by blast
  then obtain c r5 where 5: "r4 = c @ r5" "c \<noteq> []" "\<forall>x\<in>set c. notSpaceAt x" "regex_test [] r5"
    unfolding regex_test_OneOrMore by blast
  then have "r5 = []" by simp
  with 1 2 3 4 5 have "v = a @ [0x40] @ b @ [0x2E] @ c" by simp
  with 1 3 5 show "spec_email_pattern v"
    unfolding spec_email_pattern_def notSpaceAt_def by blast
next
  assume "spec_email_pattern v"
  then obtain a b c where v: "v = a @ [0x40] @ b @ [0x2E] @ c" "a \<noteq> []" "b \<noteq> []" "c \<noteq> []"
    and cls: "\<forall>x\<in>set a. notSpaceAt x" "\<forall>x\<in>set b. notSpaceAt x" "\<forall>x\<in>set c. notSpaceAt x"
    unfolding spec_email_pattern_def notSpaceAt_def by blast
  have 5: "regex_test [OneOrMore notSpaceAt] c"
    unfolding regex_test_OneOrMore using v cls by (intro exI [of _ c] exI [of _ "[]"]) simp
  then have 4: "regex_test [Lit 0x2E, OneOrMore notSpaceAt] (0x2E # c)" by simp
  have 3: "regex_test [OneOrMore notSpaceAt, Lit 0x2E, OneOrMore notSpaceAt] (b @ 0x2E # c)"
    unfolding regex_test_OneOrMore [of _ "[Lit 0x2E, OneOrMore notSpaceAt]"] using v cls 4 by blast
  then have 2: "regex_test [Lit 0x40, OneOrMore notSpaceAt, Lit 0x2E, OneOrMore notSpaceAt] (0x40 # b @ 0x2E # c)"
    by simp
  have "regex_test emailRegex (a @ 0x40 # b @ 0x2E # c)"
    unfolding emailRegex_def regex_test_OneOrMore [of _ "[Lit 0x40, OneOrMore notSpaceAt, Lit 0x2E, OneOrMore notSpaceAt]"]
    using v cls 2 by blast
  then show "regex_test emailRegex v" using v by simp
qed



section \<open>Validating one field\<close>

subsection \<open>Pages written from a page\<close>

lemma written_refl: "written p p"
  by (simp add: written_def)

lemma written_fields:
  assumes "written p q" "j < length (elements p)"
  shows "id_attr (elements q ! j) = id_attr (elements p ! j)"
    "name_prop (elements q ! j) = name_prop (elements p ! j)"
    "value_prop (elements q ! j) = value_prop (elements p ! j)"
    "parentNode (elements q ! j) = parentNode (elements p ! j)"
    "form_owner (elements q ! j) = form_owner (elements p ! j)"
    "defaultValue (elements q ! j) = defaultValue (elements p ! j)"
proof -
  let ?x = "(elements q ! j)\<lparr>classList := classList (elements p ! j),
                              textContent := textContent (elements p ! j)\<rparr>"
  from assms have e: "?x = elements p ! j" by (simp add: written_def)
  have "id_attr ?x = id_attr (elements p ! j)" "name_prop ?x = name_prop (elements p ! j)"
    "value_prop ?x = value_prop (elements p ! j)" "parentNode ?x = parentNode (elements p ! j)"
    "form_owner ?x = form_owner (elements p ! j)" "defaultValue ?x = defaultValue (elements p ! j)"
    by (simp_all only: e)
  then show "id_attr (elements q ! j) = id_attr (elements p ! j)"
    "name_prop (elements q ! j) = name_prop (elements p ! j)"
    "value_prop (elements q ! j) = value_prop (elements p ! j)"
    "parentNode (elements q ! j) = parentNode (elements p ! j)"
    "form_owner (elements q ! j) = form_owner (elements p ! j)"
    "defaultValue (elements q ! j) = defaultValue (elements p ! j)"
    by simp_all
qed

lemma written_length: "written p q \<Longrightarrow> length (elements q) = length (elements p)"
  by (simp add: written_def)

lemma written_detached: "written p q \<Longrightarrow> detached p \<subseteq> detached q"
  by (simp add: written_def)

lemma written_trans:
  assumes "written p q" "written q r"
  shows "written p r"
  unfolding written_def
proof (intro conjI allI impI ballI)
  show "length (elements r) = length (elements p)" using assms by (simp add: written_def)
next
  fix j assume j: "j < length (elements p)"
  with assms have 1: "(elements q ! j)\<lparr>classList := classList (elements p ! j),
        textContent := textContent (elements p ! j)\<rparr> = elements p ! j"
    and 2: "(elements r ! j)\<lparr>classList := classList (elements q ! j),
        textContent := textContent (elements q ! j)\<rparr> = elements q ! j"
    by (simp_all add: written_def)
  have "(elements r ! j)\<lparr>classList := classList (elements p ! j),
          textContent := textContent (elements p ! j)\<rparr> =
        ((elements r ! j)\<lparr>classList := classList (elements q ! j),
          textContent := textContent (elements q ! j)\<rparr>)\<lparr>classList := classList (elements p ! j),
          textContent := textContent (elements p ! j)\<rparr>"
    by simp
  also have "\<dots> = elements p ! j" by (simp only: 1 2)
  finally show "(elements r ! j)\<lparr>classList := classList (elements p ! j),
          textContent := textContent (elements p ! j)\<rparr> = elements p ! j" .
next
  show "detached p \<subseteq> detached r" using assms by (auto simp add: written_def)
next
  fix c assume c: "c \<in> detached r - detached p"
  show "c < length (elements p)"
  proof (cases "c \<in> detached q")
    case True
    with c assms(1) show ?thesis by (simp add: written_def)
  next
    case False
    with c assms show ?thesis by (simp add: written_def)
  qed
  show "parentNode (elements p ! c) \<noteq> None"
  proof (cases "c \<in> detached q")
    case True
    with c assms(1) show ?thesis by (simp add: written_def)
  next
    case False
    with c assms(2) have "c < length (elements q)" "parentNode (elements q ! c) \<noteq> None"
      by (simp_all add: written_def)
    with assms(1) show ?thesis by (simp add: written_fields(4) written_length)
  qed
qed

lemma written_event_path:
  assumes "written p q" "r < length (elements p)"
  shows "event_path q r = event_path p r"
  using assms by (intro event_path_cong) (simp_all add: written_fields written_length)

lemma written_connected:
  assumes "written p q" "r < length (elements p)" "isConnected q r"
  shows "isConnected p r"
  using written_event_path [OF assms(1,2)] written_detached [OF assms(1)] assms(3)
  by (rule isConnected_antimono)

text \<open>
  An element found under an id is still the one found under that id in any page
  written from the page, as long as it is in the document.
\<close>

lemma written_getElementById:
  assumes "written p q" "getElementById i p = Some x" "isConnected q x"
  shows "getElementById i q = Some x"
proof -
  from assms(2) have x: "i \<noteq> []" "x < length (elements p)" "id_attr (elements p ! x) = Some i"
    and least: "\<forall>j < x. \<not> (isConnected p j \<and> id_attr (elements p ! j) = Some i)"
    by (simp_all add: getElementById_iff)
  have "\<not> (isConnected q j \<and> id_attr (elements q ! j) = Some i)" if "j < x" for j
  proof -
    from that x(2) have j: "j < length (elements p)" by simp
    from least that have "\<not> (isConnected p j \<and> id_attr (elements p ! j) = Some i)" by simp
    with written_connected [OF assms(1) j] written_fields(1) [OF assms(1) j] show ?thesis by auto
  qed
  with x assms(1,3) show ?thesis
    by (simp add: getElementById_iff written_fields written_length)
qed

lemma written_getElementById_None:
  assumes "written p q" "getElementById i p = None"
  shows "getElementById i q = None"
proof (rule ccontr)
  assume "getElementById i q \<noteq> None"
  then obtain x where x: "getElementById i q = Some x" by auto
  then have xq: "i \<noteq> []" "x < length (elements q)" "isConnected q x" "id_attr (elements q ! x) = Some i"
    by (simp_all add: getElementById_iff)
  then have xl: "x < length (elements p)" using assms(1) by (simp add: written_length)
  define P where "P j \<longleftrightarrow> isConnected p j \<and> id_attr (elements p ! j) = Some i" for j
  have "P x"
    using written_connected [OF assms(1) xl xq(3)] written_fields(1) [OF assms(1) xl] xq(4)
    by (simp add: P_def)
  define y where "y = (LEAST k. P k)"
  have "P y" unfolding y_def using \<open>P x\<close> by (rule LeastI)
  moreover have "y \<le> x" unfolding y_def using \<open>P x\<close> by (rule Least_le)
  moreover have "\<not> P k" if "k < y" for k using that unfolding y_def by (rule not_less_Least)
  ultimately have "getElementById i p = Some y"
    using xl xq(1) by (simp add: getElementById_iff P_def)
  with assms(2) show False by simp
qed

subsection \<open>The page after a validation\<close>

lemma getFieldLabel_simps:
  "getFieldLabel (js ''name'') = js ''Nama''"
  "getFieldLabel (js ''email'') = js ''Email''"
  "getFieldLabel (js ''message'') = js ''Pesan''"
  by (simp_all add: getFieldLabel_def)

lemma validateField_fst:
  "fst (validateField field p) = (verdict (name_prop (elements p ! field)) (value_prop (elements p ! field)) = None)"
  by (simp add: validateField_def Let_def verdict_def)

lemma validateField_length [simp]: "length (elements (snd (validateField field p))) = length (elements p)"
  by (simp add: validateField_def Let_def showError_def split: option.splits)

lemma validateField_other [simp]:
  "pageYOffset (snd (validateField field p)) = pageYOffset p"
  "scrollToCalls (snd (validateField field p)) = scrollToCalls p"
  "clock (snd (validateField field p)) = clock p"
  "timers (snd (validateField field p)) = timers p"
  by (simp_all add: validateField_def Let_def showError_def split: option.splits)

lemma validateField_detached:
  "detached (snd (validateField field p)) =
     detached p \<union> (case getElementById (name_prop (elements p ! field) @ js ''Error'') p of
                     None \<Rightarrow> {} | Some e \<Rightarrow> set (children_of p e))"
  by (auto simp add: validateField_def Let_def showError_def children_of_upd split: option.splits)

lemma marked_nth:
  assumes "field < length (elements p)" "j < length (elements p)"
    and "\<And>e. ee = Some e \<Longrightarrow> e < length (elements p)"
  shows "elements (showError field ee msg
            (case ee of None \<Rightarrow> upd field (classList_remove (js ''error'')) p
             | Some e \<Rightarrow> setTextContent e [] (upd field (classList_remove (js ''error'')) p))) ! j =
         (let e = elements p ! j;
              e1 = (if j = field then e\<lparr>classList := filter (\<lambda>x. x \<noteq> js ''error'') (classList e) @ [js ''error'']\<rparr> else e)
          in if ee = Some j then e1\<lparr>textContent := msg\<rparr> else e1)"
  using assms by (cases ee) (simp_all add: showError_def Let_def nth_upd classList_add_def classList_remove_def)

lemma cleared_nth:
  assumes "field < length (elements p)" "j < length (elements p)"
    and "\<And>e. ee = Some e \<Longrightarrow> e < length (elements p)"
  shows "elements 
            (case ee of None \<Rightarrow> upd field (classList_remove (js ''error'')) p
             | Some e \<Rightarrow> setTextContent e [] (upd field (classList_remove (js ''error'')) p)) ! j =
         (let e = elements p ! j;
              e1 = (if j = field then e\<lparr>classList := filter (\<lambda>x. x \<noteq> js ''error'') (classList e)\<rparr> else e)
          in if ee = Some j then e1\<lparr>textContent := []\<rparr> else e1)"
  using assms by (cases ee) (simp_all add: Let_def nth_upd classList_remove_def)

lemma validateField_alt:
  "validateField field p =
     (let n = name_prop (elements p ! field);
          m = verdict n (value_prop (elements p ! field));
          ee = getElementById (n @ js ''Error'') p;
          c = (case ee of None \<Rightarrow> upd field (classList_remove (js ''error'')) p
              | Some e \<Rightarrow> setTextContent e [] (upd field (classList_remove (js ''error'')) p))
      in (m = None, case m of None \<Rightarrow> c | Some t \<Rightarrow> showError field ee t c))"
  by (simp add: validateField_def verdict_def Let_def)

lemma validateField_nth:
  assumes "field < length (elements p)" "j < length (elements p)"
  shows "elements (snd (validateField field p)) ! j = validated field p j"
proof -
  define n where "n = name_prop (elements p ! field)"
  define ee where "ee = getElementById (n @ js ''Error'') p"
  define m where "m = verdict n (value_prop (elements p ! field))"
  have ee: "\<And>e. ee = Some e \<Longrightarrow> e < length (elements p)"
    by (simp add: ee_def getElementById_Some)
  show ?thesis
  proof (cases m)
    case None
    have "elements (snd (validateField field p)) ! j = elements (case ee of None \<Rightarrow> upd field (classList_remove (js ''error'')) p
              | Some e \<Rightarrow> setTextContent e [] (upd field (classList_remove (js ''error'')) p)) ! j"
      using None by (simp add: validateField_alt Let_def n_def ee_def m_def)
    also note cleared_nth [OF assms ee]
    also have "(let e = elements p ! j;
              e1 = (if j = field then e\<lparr>classList := filter (\<lambda>x. x \<noteq> js ''error'') (classList e)\<rparr> else e)
          in if ee = Some j then e1\<lparr>textContent := []\<rparr> else e1) = validated field p j"
      using None by (simp add: validated_def Let_def n_def ee_def m_def)
    finally show ?thesis .
  next
    case (Some t)
    have "elements (snd (validateField field p)) ! j = elements (showError field ee t (case ee of None \<Rightarrow> upd field (classList_remove (js ''error'')) p
              | Some e \<Rightarrow> setTextContent e [] (upd field (classList_remove (js ''error'')) p))) ! j"
      using Some by (simp add: validateField_alt Let_def n_def ee_def m_def)
    also note marked_nth [OF assms ee]
    also have "(let e = elements p ! j;
              e1 = (if j = field then e\<lparr>classList := filter (\<lambda>x. x \<noteq> js ''error'') (classList e) @ [js ''error'']\<rparr> else e)
          in if ee = Some j then e1\<lparr>textContent := t\<rparr> else e1) = validated field p j"
      using Some by (simp add: validated_def Let_def n_def ee_def m_def)
    finally show ?thesis .
  qed
qed

lemma validated_fields [simp]:
  "id_attr (validated field p j) = id_attr (elements p ! j)"
  "name_prop (validated field p j) = name_prop (elements p ! j)"
  "value_prop (validated field p j) = value_prop (elements p ! j)"
  by (simp_all add: validated_def Let_def)

lemma validated_frame [simp]:
  "localName (validated field p j) = localName (elements p ! j)"
  "href_attr (validated field p j) = href_attr (elements p ! j)"
  "defaultValue (validated field p j) = defaultValue (elements p ! j)"
  "form_owner (validated field p j) = form_owner (elements p ! j)"
  "parentNode (validated field p j) = parentNode (elements p ! j)"
  by (simp_all add: validated_def Let_def)

lemma validateField_written:
  assumes "field < length (elements p)"
  shows "written p (snd (validateField field p))"
  unfolding written_def
  using assms
  by (auto simp add: validateField_nth validateField_detached validated_def Let_def set_children_of
      split: option.splits)

text \<open>
  The element that displays the error of a field is not among its own children, so
  it is found again after the validation.
\<close>

lemma getElementById_validateField:
  assumes "field < length (elements p)"
  shows "getElementById (name_prop (elements p ! field) @ js ''Error'') (snd (validateField field p)) =
         getElementById (name_prop (elements p ! field) @ js ''Error'') p"
proof (cases "getElementById (name_prop (elements p ! field) @ js ''Error'') p")
  case None
  with validateField_written [OF assms] show ?thesis
    by (simp add: written_getElementById_None)
next
  case (Some e)
  then have e: "e < length (elements p)" "isConnected p e" by (simp_all add: getElementById_iff)
  have "event_path (snd (validateField field p)) e = event_path p e"
    using validateField_written [OF assms] e(1) by (rule written_event_path)
  moreover have "\<forall>a \<in> set (event_path p e). a \<notin> set (children_of p e)"
  proof
    fix a assume "a \<in> set (event_path p e)"
    then have "a \<le> e" unfolding event_path_def by (rule path_up_le)
    then show "a \<notin> set (children_of p e)" by (simp add: set_children_of)
  qed
  ultimately have "isConnected (snd (validateField field p)) e"
    using e(2) Some by (simp add: isConnected_iff validateField_detached)
  with validateField_written [OF assms] Some show ?thesis
    by (simp add: written_getElementById)
qed

lemma validated_validated:
  assumes "field < length (elements p)" "j < length (elements p)"
  shows "validated field (snd (validateField field p)) j = validated field p j"
  unfolding validated_def [of field "snd (validateField field p)"]
  by (simp add: validateField_nth assms getElementById_validateField Let_def)
    (simp add: validated_def Let_def)

lemma children_of_validateField:
  assumes "field < length (elements p)"
  shows "children_of (snd (validateField field p)) a = children_of p a"
  using validateField_written [OF assms]
  by (intro children_of_cong) (simp_all add: written_fields)

lemma matching_Nil [simp]: "matching P (p\<lparr>elements := []\<rparr>) = []"
  by (simp add: matching_def)

lemma trim_blank: "trim (js ''  '') = []"
  by (simp add: trim_def js_def isWhiteSpace_def)

lemma trim_bad: "trim (js ''bad-email'') = js ''bad-email''"
  by (simp add: trim_def js_def isWhiteSpace_def)

lemma trim_good: "trim (js ''a@b.com'') = js ''a@b.com''"
  by (simp add: trim_def js_def isWhiteSpace_def)

lemma regex_bad: "\<not> regex_test emailRegex (js ''bad-email'')"
  by (simp add: js_def emailRegex_def notSpaceAt_def isWhiteSpace_def)

lemma regex_good: "regex_test emailRegex (js ''a@b.com'')"
  by (simp add: js_def emailRegex_def notSpaceAt_def isWhiteSpace_def)

lemmas eval_defs = getElementById_def matching_eval page_of_def input_el_def error_el_def blank_def
  first_def

text \<open>
  Claim C1. For every field passed to \<open>validateField\<close>: if the trimmed value is empty,
  the field gets the error class, its error-text element (when the document has one)
  gets the field's label followed by \<open>harus diisi\<close>, and the result is false; if the
  field is the email field and the trimmed value is non-empty but does not match the
  pattern, the field gets the error class, the error text is
  \<open>Format email tidak valid\<close> and the result is false; in every other case the field
  ends without the error class, with empty error text, and the result is true. The
  labels of \<open>name\<close>, \<open>email\<close> and \<open>message\<close> are \<open>Nama\<close>, \<open>Email\<close> and \<open>Pesan\<close>.
\<close>

theorem validateField_spec:
  assumes "field < length (elements p)"
  shows
   "(trim (value_prop (elements p ! field)) = [] \<longrightarrow>
       \<not> fst (validateField field p) \<and>
       classList_contains (js ''error'') (elements (snd (validateField field p)) ! field) \<and>
       (\<forall>e. getElementById (name_prop (elements p ! field) @ js ''Error'') p = Some e \<longrightarrow>
          textContent (elements (snd (validateField field p)) ! e) =
            getFieldLabel (name_prop (elements p ! field)) @ js '' harus diisi'')) \<and>
    (trim (value_prop (elements p ! field)) \<noteq> [] \<and> name_prop (elements p ! field) = js ''email'' \<and>
     \<not> spec_email_pattern (trim (value_prop (elements p ! field))) \<longrightarrow>
       \<not> fst (validateField field p) \<and>
       classList_contains (js ''error'') (elements (snd (validateField field p)) ! field) \<and>
       (\<forall>e. getElementById (name_prop (elements p ! field) @ js ''Error'') p = Some e \<longrightarrow>
          textContent (elements (snd (validateField field p)) ! e) = js ''Format email tidak valid'')) \<and>
    (trim (value_prop (elements p ! field)) \<noteq> [] \<and>
     (name_prop (elements p ! field) = js ''email'' \<longrightarrow>
        spec_email_pattern (trim (value_prop (elements p ! field)))) \<longrightarrow>
       fst (validateField field p) \<and>
       \<not> classList_contains (js ''error'') (elements (snd (validateField field p)) ! field) \<and>
       (\<forall>e. getElementById (name_prop (elements p ! field) @ js ''Error'') p = Some e \<longrightarrow>
          textContent (elements (snd (validateField field p)) ! e) = [])) \<and>
    getFieldLabel (js ''name'') = js ''Nama'' \<and> getFieldLabel (js ''email'') = js ''Email'' \<and>
    getFieldLabel (js ''message'') = js ''Pesan''"
proof -
  have e: "e < length (elements p)"
    if "getElementById (name_prop (elements p ! field) @ js ''Error'') p = Some e" for e
    using that by (simp add: getElementById_Some)
  show ?thesis
    using e assms
    by (auto simp add: validateField_fst validateField_nth validated_def verdict_def Let_def
        classList_contains_def emailRegex_spec getFieldLabel_simps)
qed

theorem validateField_spec_witness:
  "\<not> fst (validateField 0 (page_of [input_el ''name'' ''  '', error_el ''name''])) \<and>
   classList_contains (js ''error'')
     (elements (snd (validateField 0 (page_of [input_el ''name'' ''  '', error_el ''name'']))) ! 0) \<and>
   textContent (elements (snd (validateField 0 (page_of [input_el ''name'' ''  '', error_el ''name'']))) ! 1)
     = js ''Nama harus diisi'' \<and>
   \<not> fst (validateField 0 (page_of [input_el ''email'' ''bad-email'', error_el ''email''])) \<and>
   textContent (elements (snd (validateField 0 (page_of [input_el ''email'' ''bad-email'', error_el ''email'']))) ! 1)
     = js ''Format email tidak valid'' \<and>
   fst (validateField 0 (page_of [input_el ''email'' ''a@b.com'', error_el ''email''])) \<and>
   \<not> classList_contains (js ''error'')
     (elements (snd (validateField 0 (page_of [input_el ''email'' ''a@b.com'', error_el ''email'']))) ! 0) \<and>
   textContent (elements (snd (validateField 0 (page_of [input_el ''email'' ''a@b.com'', error_el ''email'']))) ! 1)
     = []"
proof -
  let ?A = "page_of [input_el ''name'' ''  '', error_el ''name'']"
  let ?B = "page_of [input_el ''email'' ''bad-email'', error_el ''email'']"
  let ?C = "page_of [input_el ''email'' ''a@b.com'', error_el ''email'']"
  have a: "0 < length (elements ?A)" "trim (value_prop (elements ?A ! 0)) = []"
    "getElementById (name_prop (elements ?A ! 0) @ js ''Error'') ?A = Some 1"
    "name_prop (elements ?A ! 0) = js ''name''"
    by (simp_all add: eval_defs trim_blank)
  have b: "0 < length (elements ?B)" "trim (value_prop (elements ?B ! 0)) = js ''bad-email''"
    "getElementById (name_prop (elements ?B ! 0) @ js ''Error'') ?B = Some 1"
    "name_prop (elements ?B ! 0) = js ''email''"
    by (simp_all add: eval_defs trim_bad)
  have c: "0 < length (elements ?C)" "trim (value_prop (elements ?C ! 0)) = js ''a@b.com''"
    "getElementById (name_prop (elements ?C ! 0) @ js ''Error'') ?C = Some 1"
    "name_prop (elements ?C ! 0) = js ''email''"
    by (simp_all add: eval_defs trim_good)
  have bad: "\<not> spec_email_pattern (js ''bad-email'')" and good: "spec_email_pattern (js ''a@b.com'')"
    by (simp_all add: emailRegex_spec [symmetric] regex_bad regex_good)
  from validateField_spec [OF a(1)] a(2-) have A:
    "\<not> fst (validateField 0 ?A) \<and> classList_contains (js ''error'') (elements (snd (validateField 0 ?A)) ! 0) \<and>
     textContent (elements (snd (validateField 0 ?A)) ! 1) = js ''Nama harus diisi''"
    by simp
  from validateField_spec [OF b(1)] b(2-) bad have B:
    "\<not> fst (validateField 0 ?B) \<and>
     textContent (elements (snd (validateField 0 ?B)) ! 1) = js ''Format email tidak valid''"
    by simp
  from validateField_spec [OF c(1)] c(2-) good have C:
    "fst (validateField 0 ?C) \<and> \<not> classList_contains (js ''error'') (elements (snd (validateField 0 ?C)) ! 0) \<and>
     textContent (elements (snd (validateField 0 ?C)) ! 1) = []"
    by simp
  from A B C show ?thesis by simp
qed


text \<open>
  Claim C9. \<open>validateField\<close> is idempotent: a second call on the page left by the first
  returns the same result and leaves the same page, so the same error class and the
  same error text.
\<close>

theorem validateField_idempotent:
  assumes "field < length (elements p)"
  shows "validateField field (snd (validateField field p)) = validateField field p"
proof (rule prod_eqI)
  show "fst (validateField field (snd (validateField field p))) = fst (validateField field p)"
    by (simp add: validateField_fst validateField_nth assms)
  show "snd (validateField field (snd (validateField field p))) = snd (validateField field p)"
  proof (rule page_eqI)
    show "elements (snd (validateField field (snd (validateField field p)))) = elements (snd (validateField field p))"
      by (rule nth_equalityI) (simp_all add: validateField_nth assms validated_validated)
    show "detached (snd (validateField field (snd (validateField field p)))) = detached (snd (validateField field p))"
    proof -
      have "detached (snd (validateField field (snd (validateField field p)))) =
          detached (snd (validateField field p)) \<union>
          (case getElementById (name_prop (elements p ! field) @ js ''Error'') p of
             None \<Rightarrow> {} | Some e \<Rightarrow> set (children_of (snd (validateField field p)) e))"
        unfolding validateField_detached [of field "snd (validateField field p)"]
        by (simp add: validateField_nth assms getElementById_validateField)
      then show ?thesis
        by (auto simp add: children_of_validateField assms validateField_detached [of field p]
            split: option.splits)
    qed
  qed simp_all
qed


theorem validateField_idempotent_witness:
  "0 < length (elements (page_of [input_el ''name'' ''  '', error_el ''name''])) \<and>
   validateField 0 (snd (validateField 0 (page_of [input_el ''name'' ''  '', error_el ''name'']))) =
     validateField 0 (page_of [input_el ''name'' ''  '', error_el ''name''])"
proof -
  have h: "0 < length (elements (page_of [input_el ''name'' ''  '', error_el ''name'']))"
    by (simp add: page_of_def)
  from h validateField_idempotent [OF h] show ?thesis by simp
qed

text \<open>
  Claim C10. \<open>validateField\<close> leaves every value unchanged: it writes only class lists
  and text contents. Of the class lists it changes only the field's, and there only
  the presence of the error class; of the text contents only that of the field's
  error-text element, whose children the assignment takes out of it. Everything else
  of the page stays as it was.
\<close>

theorem validateField_frame:
  assumes "field < length (elements p)"
  shows
   "length (elements (snd (validateField field p))) = length (elements p) \<and>
    (\<forall>j < length (elements p).
       value_prop (elements (snd (validateField field p)) ! j) = value_prop (elements p ! j) \<and>
       (elements (snd (validateField field p)) ! j)
          \<lparr>classList := classList (elements p ! j), textContent := textContent (elements p ! j)\<rparr>
         = elements p ! j \<and>
       (j \<noteq> field \<longrightarrow>
          classList (elements (snd (validateField field p)) ! j) = classList (elements p ! j)) \<and>
       (getElementById (name_prop (elements p ! field) @ js ''Error'') p \<noteq> Some j \<longrightarrow>
          textContent (elements (snd (validateField field p)) ! j) = textContent (elements p ! j))) \<and>
    filter (\<lambda>c. c \<noteq> js ''error'') (classList (elements (snd (validateField field p)) ! field)) =
      filter (\<lambda>c. c \<noteq> js ''error'') (classList (elements p ! field)) \<and>
    pageYOffset (snd (validateField field p)) = pageYOffset p \<and>
    scrollToCalls (snd (validateField field p)) = scrollToCalls p \<and>
    clock (snd (validateField field p)) = clock p \<and>
    timers (snd (validateField field p)) = timers p \<and>
    detached (snd (validateField field p)) =
      detached p \<union> (case getElementById (name_prop (elements p ! field) @ js ''Error'') p of
                      None \<Rightarrow> {} | Some e \<Rightarrow> set (children_of p e))"
  using assms by (simp add: validateField_nth validated_def Let_def validateField_detached)

theorem validateField_frame_witness:
  "0 < length (elements (page_of [input_el ''name'' ''  '', error_el ''name''])) \<and>
   value_prop (elements (snd (validateField 0 (page_of [input_el ''name'' ''  '', error_el ''name'']))) ! 0)
     = js ''  '' \<and>
   classList (elements (snd (validateField 0 (page_of [input_el ''name'' ''  '', error_el ''name'']))) ! 1)
     = [js ''form-error'']"
proof -
  let ?A = "page_of [input_el ''name'' ''  '', error_el ''name'']"
  have h: "0 < length (elements ?A)" "(1::nat) < length (elements ?A)" "(1::nat) \<noteq> 0"
    "value_prop (elements ?A ! 0) = js ''  ''" "classList (elements ?A ! 1) = [js ''form-error'']"
    by (simp_all add: eval_defs)
  from validateField_frame [OF h(1)] h show ?thesis by simp
qed


section \<open>The active navigation link\<close>

lemma fold_last_wins:
  "fold (\<lambda>s c. if Q s then g s else c) xs c0 =
     (if filter Q xs = [] then c0 else g (last (filter Q xs)))"
  by (induction xs rule: rev_induct) simp_all

lemma currentSectionOf_eq:
  "currentSectionOf p =
     (if hitSections p = [] then Some [] else id_attr (elements p ! last (hitSections p)))"
  unfolding currentSectionOf_def hitSections_def Let_def containsPoint_def
  by (simp add: fold_last_wins)


lemma updateActiveMenuItem_active:
  assumes "l \<in> set (querySelectorAll_class (js ''nav-link'') p)"
  shows "isActive (updateActiveMenuItem p) l \<longleftrightarrow>
         href_attr (elements p ! l) = Some (js ''#'' @ template (currentSectionOf p))"
proof -
  from assms have "l < length (elements p)"
    by (simp add: querySelectorAll_class_def set_matching)
  with assms show ?thesis
    by (simp add: isActive_def updateActiveMenuItem_def Let_def querySelectorAll_class_def forEach_nth
        classList_contains_def classList_add_def classList_remove_def)
qed


text \<open>
  When top and end of a section are integers below \<open>2 ^ 53\<close> in magnitude, the end the
  script computes is the exact one, so the section contains the point exactly when the
  point lies in the interval \<open>[top, top + height)\<close>.
\<close>

lemma containsPoint_interval:
  assumes "\<bar>offsetTop (elements p ! s) + offsetHeight (elements p ! s)\<bar> < 2 ^ 53"
  shows "containsPoint p s \<longleftrightarrow>
     of_int (offsetTop (elements p ! s)) \<le> toDouble (pageYOffset p + 100) \<and>
     toDouble (pageYOffset p + 100) < of_int (offsetTop (elements p ! s) + offsetHeight (elements p ! s))"
proof -
  have "toDouble (of_int (offsetTop (elements p ! s)) + of_int (offsetHeight (elements p ! s))) =
        of_int (offsetTop (elements p ! s) + offsetHeight (elements p ! s))"
    using toDouble_of_int [OF assms] by simp
  then show ?thesis by (simp only: containsPoint_def)
qed




lemmas nav_defs = hitSections_def querySelectorAll_section_id_def querySelectorAll_class_def
  containsPoint_def classList_contains_def matching_eval page_of_def link_el_def section_el_def
  blank_def




text \<open>
  Claim C3, as the code has it. After the scroll handler ran, any two navigation links
  that carry the active class have the same href; so at most one navigation link is
  active when no two navigation links share an href.
\<close>

theorem updateActiveMenuItem_exclusive:
  "(\<forall>l \<in> set (querySelectorAll_class (js ''nav-link'') p).
    \<forall>l' \<in> set (querySelectorAll_class (js ''nav-link'') p).
      isActive (updateActiveMenuItem p) l \<and> isActive (updateActiveMenuItem p) l' \<longrightarrow>
        href_attr (elements p ! l) = href_attr (elements p ! l')) \<and>
   (distinct (map (\<lambda>l. href_attr (elements p ! l)) (querySelectorAll_class (js ''nav-link'') p)) \<longrightarrow>
    (\<forall>l \<in> set (querySelectorAll_class (js ''nav-link'') p).
     \<forall>l' \<in> set (querySelectorAll_class (js ''nav-link'') p).
       isActive (updateActiveMenuItem p) l \<and> isActive (updateActiveMenuItem p) l' \<longrightarrow> l = l'))"
proof (intro conjI impI ballI)
  fix l l'
  assume "l \<in> set (querySelectorAll_class (js ''nav-link'') p)"
    "l' \<in> set (querySelectorAll_class (js ''nav-link'') p)"
    "isActive (updateActiveMenuItem p) l \<and> isActive (updateActiveMenuItem p) l'"
  then show "href_attr (elements p ! l) = href_attr (elements p ! l')"
    by (simp add: updateActiveMenuItem_active)
next
  fix l l'
  assume d: "distinct (map (\<lambda>l. href_attr (elements p ! l)) (querySelectorAll_class (js ''nav-link'') p))"
    and l: "l \<in> set (querySelectorAll_class (js ''nav-link'') p)"
    "l' \<in> set (querySelectorAll_class (js ''nav-link'') p)"
    and "isActive (updateActiveMenuItem p) l \<and> isActive (updateActiveMenuItem p) l'"
  then have "href_attr (elements p ! l) = href_attr (elements p ! l')"
    by (simp add: updateActiveMenuItem_active)
  moreover from d have "inj_on (\<lambda>l. href_attr (elements p ! l)) (set (querySelectorAll_class (js ''nav-link'') p))"
    by (simp add: distinct_map)
  ultimately show "l = l'" using l by (auto dest: inj_onD)
qed

theorem updateActiveMenuItem_exclusive_witness:
  "distinct (map (\<lambda>l. href_attr (elements (page_of [link_el ''#home'', link_el ''#about'',
       section_el ''home'' 0 600, section_el ''about'' 600 500]) ! l))
     (querySelectorAll_class (js ''nav-link'') (page_of [link_el ''#home'', link_el ''#about'',
       section_el ''home'' 0 600, section_el ''about'' 600 500]))) \<and>
   \<not> (isActive (updateActiveMenuItem (page_of [link_el ''#home'', link_el ''#about'',
       section_el ''home'' 0 600, section_el ''about'' 600 500])) 0 \<and>
      isActive (updateActiveMenuItem (page_of [link_el ''#home'', link_el ''#about'',
       section_el ''home'' 0 600, section_el ''about'' 600 500])) 1)"
proof -
  let ?A = "page_of [link_el ''#home'', link_el ''#about'', section_el ''home'' 0 600, section_el ''about'' 600 500]"
  have a: "querySelectorAll_class (js ''nav-link'') ?A = [0, 1]"
    by (simp add: nav_defs)
  have h: "href_attr (elements ?A ! 0) = Some (js ''#home'')" "href_attr (elements ?A ! 1) = Some (js ''#about'')"
    by (simp_all add: page_of_def link_el_def blank_def)
  have d: "distinct (map (\<lambda>l. href_attr (elements ?A ! l)) (querySelectorAll_class (js ''nav-link'') ?A))"
    unfolding a by (simp add: page_of_def link_el_def blank_def)
  have m: "0 \<in> set (querySelectorAll_class (js ''nav-link'') ?A)" "1 \<in> set (querySelectorAll_class (js ''nav-link'') ?A)"
    by (simp_all add: a)
  from updateActiveMenuItem_exclusive [of ?A] d
  have "\<forall>l \<in> set (querySelectorAll_class (js ''nav-link'') ?A).
     \<forall>l' \<in> set (querySelectorAll_class (js ''nav-link'') ?A).
       isActive (updateActiveMenuItem ?A) l \<and> isActive (updateActiveMenuItem ?A) l' \<longrightarrow> l = l'"
    by (rule_tac conjunct2 [THEN mp])
  with m have "isActive (updateActiveMenuItem ?A) 0 \<and> isActive (updateActiveMenuItem ?A) 1 \<longrightarrow> (0::nat) = 1"
    by blast
  then have "\<not> (isActive (updateActiveMenuItem ?A) 0 \<and> isActive (updateActiveMenuItem ?A) 1)"
    by simp
  with d show ?thesis by (simp only: simp_thms)
qed

text \<open>
  Claim C3 as stated fails: two navigation links with the same href are both active
  when their section is the current one.
\<close>

theorem updateActiveMenuItem_two_active_counterexample:
  "0 \<in> set (querySelectorAll_class (js ''nav-link'')
       (page_of [link_el ''#about'', link_el ''#about'', section_el ''about'' 0 600])) \<and>
   1 \<in> set (querySelectorAll_class (js ''nav-link'')
       (page_of [link_el ''#about'', link_el ''#about'', section_el ''about'' 0 600])) \<and>
   isActive (updateActiveMenuItem (page_of [link_el ''#about'', link_el ''#about'', section_el ''about'' 0 600])) 0 \<and>
   isActive (updateActiveMenuItem (page_of [link_el ''#about'', link_el ''#about'', section_el ''about'' 0 600])) 1 \<and>
   (0::nat) \<noteq> 1"
proof -
  let ?A = "page_of [link_el ''#about'', link_el ''#about'', section_el ''about'' 0 600]"
  have a: "hitSections ?A = [2]" "querySelectorAll_class (js ''nav-link'') ?A = [0, 1]"
    "href_attr (elements ?A ! 0) = Some (js ''#about'')" "href_attr (elements ?A ! 1) = Some (js ''#about'')"
    "id_attr (elements ?A ! 2) = Some (js ''about'')"
    by (simp_all add: nav_defs)
  then show ?thesis
    by (simp add: updateActiveMenuItem_active currentSectionOf_eq template_def)
qed


section \<open>Following a navigation link\<close>

lemma hash_literal: "js ''#about'' = 0x23 # js ''about''"
  by (simp add: js_def)

lemma smoothScrollTo_elements [simp]:
  "elements (smoothScrollTo s p) = elements p" "detached (smoothScrollTo s p) = detached p"
  by (simp_all add: smoothScrollTo_def)

lemma matching_elements_cong:
  "elements q = elements p \<Longrightarrow> detached q = detached p \<Longrightarrow> matching P q = matching P p"
  by (simp add: matching_def isConnected_iff event_path_def)

lemma smoothScrollTo_queries [simp]:
  "querySelector_class c (smoothScrollTo s p) = querySelector_class c p"
  "getElementById i (smoothScrollTo s p) = getElementById i p"
  by (simp_all add: querySelector_class_def querySelectorAll_class_def getElementById_def
      matching_elements_cong [of "smoothScrollTo s p" p])

text \<open>
  Claim C6 fails on the code. With a navigation link to an existing section and no
  element of class \<open>nav-menu\<close> in the document, the click listener raises a TypeError
  at \<open>navMenu.classList\<close>, although \<open>initMobileMenu\<close> on the same document is the silent
  no-op the claim describes.
\<close>

theorem navLinkClick_missing_menu_throws:
  "fst (navLinkClick 0 \<lparr>target = 0, defaultPrevented = False\<rparr>
          (page_of [link_el ''#about'', section_el ''about'' 0 600])) = Threw TypeError \<and>
   initMobileMenu (page_of [link_el ''#about'', section_el ''about'' 0 600]) = None"
proof -
  let ?A = "page_of [link_el ''#about'', section_el ''about'' 0 600]"
  have h: "href_attr (elements ?A ! 0) = Some (0x23 # js ''about'')"
    by (simp add: page_of_def link_el_def blank_def hash_literal)
  have s: "getElementById (js ''about'') ?A = Some 1"
    by (simp add: getElementById_def matching_eval first_def page_of_def link_el_def section_el_def blank_def)
  have m: "querySelector_class (js ''nav-menu'') ?A = None"
    by (simp add: querySelector_class_def querySelectorAll_class_def matching_eval first_def
        classList_contains_def page_of_def link_el_def section_el_def blank_def)
  show ?thesis
    by (simp add: navLinkClick_def h s m startsWith_def Let_def initMobileMenu_def split: option.splits)
qed

lemma navLinkClick_completes:
  assumes "href_attr (elements p ! l) = Some h"
    and "querySelector_class (js ''nav-menu'') p = Some m"
    and "querySelector_class (js ''nav-toggle'') p = Some t"
  shows "fst (navLinkClick l e p) = Done"
proof -
  from assms show ?thesis
    by (simp add: navLinkClick_def Let_def split: option.splits)
qed


section \<open>Submitting the form\<close>

lemma fieldValid_verdict:
  "fieldValid p f \<longleftrightarrow> verdict (name_prop (elements p ! f)) (value_prop (elements p ! f)) = None"
  by (simp add: fieldValid_def verdict_def emailRegex_spec)

subsection \<open>Clearing the errors\<close>

lemma upd_detached_update: "upd r f (p\<lparr>detached := D\<rparr>) = (upd r f p)\<lparr>detached := D\<rparr>"
  by (simp add: upd_def)

lemma forEach_detached_update: "forEach rs f (p\<lparr>detached := D\<rparr>) = (forEach rs f p)\<lparr>detached := D\<rparr>"
  unfolding forEach_def by (induction rs arbitrary: p) (simp_all add: upd_detached_update)

lemma children_of_detached_update [simp]: "children_of (p\<lparr>detached := D\<rparr>) a = children_of p a"
  by (simp add: children_of_def)

lemma event_path_detached_update [simp]: "event_path (p\<lparr>detached := D\<rparr>) r = event_path p r"
  by (simp add: event_path_def)

lemma children_of_forEach:
  assumes "\<And>e. parentNode (f e) = parentNode e"
  shows "children_of (forEach rs f p) a = children_of p a"
  unfolding forEach_def by (induction rs arbitrary: p) (simp_all add: children_of_upd assms)

lemma event_path_forEach:
  assumes "\<And>e. parentNode (f e) = parentNode e"
  shows "event_path (forEach rs f p) r = event_path p r"
  unfolding forEach_def by (induction rs arbitrary: p) (simp_all add: event_path_upd assms)

lemma forEach_Cons: "forEach (r # rs) f p = forEach rs f (upd r f p)"
  by (simp add: forEach_def)

lemma fold_setTextContent:
  "fold (\<lambda>el. setTextContent el v) rs p =
     (forEach rs (\<lambda>x. x\<lparr>textContent := v\<rparr>) p)
       \<lparr>detached := detached p \<union> (\<Union>el \<in> set rs. set (children_of p el))\<rparr>"
proof (induction rs arbitrary: p)
  case Nil
  show ?case by (simp add: forEach_def)
next
  case (Cons r rs)
  let ?g = "\<lambda>x. x\<lparr>textContent := v\<rparr>"
  let ?D = "detached p \<union> set (children_of p r)"
  have "fold (\<lambda>el. setTextContent el v) (r # rs) p =
        fold (\<lambda>el. setTextContent el v) rs ((upd r ?g p)\<lparr>detached := ?D\<rparr>)"
    by (simp add: setTextContent_alt)
  also have "\<dots> = (forEach rs ?g ((upd r ?g p)\<lparr>detached := ?D\<rparr>))
       \<lparr>detached := ?D \<union> (\<Union>el \<in> set rs. set (children_of p el))\<rparr>"
    unfolding Cons.IH by (simp add: children_of_upd)
  also have "\<dots> = (forEach (r # rs) ?g p)
       \<lparr>detached := detached p \<union> (\<Union>el \<in> set (r # rs). set (children_of p el))\<rparr>"
    by (simp add: forEach_detached_update forEach_Cons Un_assoc)
  finally show ?case .
qed

lemma clearErrors_length [simp]: "length (elements (clearErrors p)) = length (elements p)"
  by (simp add: clearErrors_def Let_def fold_setTextContent)

lemma clearErrors_other [simp]:
  "pageYOffset (clearErrors p) = pageYOffset p" "scrollToCalls (clearErrors p) = scrollToCalls p"
  "clock (clearErrors p) = clock p" "timers (clearErrors p) = timers p"
  by (simp_all add: clearErrors_def Let_def fold_setTextContent)

lemma clearErrors_detached:
  "detached (clearErrors p) =
     detached p \<union> (\<Union>el \<in> set (querySelectorAll_class (js ''form-error'') p). set (children_of p el))"
  by (simp add: clearErrors_def Let_def fold_setTextContent)

lemma clearErrors_nth:
  assumes "j < length (elements p)"
  shows "elements (clearErrors p) ! j =
     (let e = elements p ! j;
          e1 = (if isConnected p j \<and> js ''form-error'' \<in> set (classList e)
                then e\<lparr>textContent := []\<rparr> else e)
      in if isConnected (clearErrors p) j \<and> js ''form-input'' \<in> set (classList e)
         then classList_remove (js ''error'') e1 else e1)"
proof -
  define errs where "errs = querySelectorAll_class (js ''form-error'') p"
  define p1 where "p1 = fold (\<lambda>el. setTextContent el []) errs p"
  have p1: "p1 = (forEach errs (\<lambda>x. x\<lparr>textContent := []\<rparr>) p)
       \<lparr>detached := detached p \<union> (\<Union>el \<in> set errs. set (children_of p el))\<rparr>"
    unfolding p1_def by (rule fold_setTextContent)
  have errs: "distinct errs"
    "\<And>i. i \<in> set errs \<longleftrightarrow> i < length (elements p) \<and> isConnected p i \<and>
        js ''form-error'' \<in> set (classList (elements p ! i))"
    by (simp_all add: errs_def querySelectorAll_class_def set_matching classList_contains_def)
  have 1: "elements p1 ! i =
      (if isConnected p i \<and> js ''form-error'' \<in> set (classList (elements p ! i))
       then (elements p ! i)\<lparr>textContent := []\<rparr> else elements p ! i)" if "i < length (elements p)" for i
    unfolding p1 using that by (simp add: forEach_nth errs)
  have len: "length (elements p1) = length (elements p)" unfolding p1 by simp
  define inputs where "inputs = querySelectorAll_class (js ''form-input'') p1"
  have inputs: "distinct inputs"
    "\<And>i. i \<in> set inputs \<longleftrightarrow> i < length (elements p) \<and> isConnected p1 i \<and>
        js ''form-input'' \<in> set (classList (elements p ! i))"
    by (auto simp add: inputs_def querySelectorAll_class_def set_matching classList_contains_def len 1
        split: if_splits)
  have c: "clearErrors p = forEach inputs (classList_remove (js ''error'')) p1"
    by (simp add: clearErrors_def Let_def inputs_def p1_def errs_def)
  have con: "isConnected (clearErrors p) j = isConnected p1 j"
    unfolding c by (rule isConnected_cong) (simp_all add: event_path_forEach)
  from assms have "j < length (elements p1)" by (simp add: len)
  then have "elements (clearErrors p) ! j =
      (if j \<in> set inputs then classList_remove (js ''error'') (elements p1 ! j) else elements p1 ! j)"
    unfolding c using inputs(1) by (simp add: forEach_nth)
  with assms show ?thesis
    by (simp add: con inputs(2) 1 Let_def)
qed

lemma clearErrors_written: "written p (clearErrors p)"
  unfolding written_def
proof (intro conjI allI impI ballI)
  fix j assume "j < length (elements p)"
  then show "(elements (clearErrors p) ! j)\<lparr>classList := classList (elements p ! j),
      textContent := textContent (elements p ! j)\<rparr> = elements p ! j"
    by (simp add: clearErrors_nth Let_def classList_remove_def)
next
  fix c assume "c \<in> detached (clearErrors p) - detached p"
  then show "c < length (elements p)" "parentNode (elements p ! c) \<noteq> None"
    by (auto simp add: clearErrors_detached set_children_of)
qed (simp_all add: clearErrors_detached)

lemma clearErrors_classList:
  assumes "j < length (elements p)"
  shows "classList (elements (clearErrors p) ! j) =
     (if isConnected (clearErrors p) j \<and> js ''form-input'' \<in> set (classList (elements p ! j))
      then filter (\<lambda>x. x \<noteq> js ''error'') (classList (elements p ! j))
      else classList (elements p ! j))"
  using assms by (simp add: clearErrors_nth Let_def classList_remove_def)

lemma clearErrors_textContent:
  assumes "j < length (elements p)"
  shows "textContent (elements (clearErrors p) ! j) =
     (if j \<in> set (querySelectorAll_class (js ''form-error'') p) then [] else textContent (elements p ! j))"
  using assms
  by (simp add: clearErrors_nth Let_def classList_remove_def querySelectorAll_class_def set_matching
      classList_contains_def)

lemma clearErrors_fields:
  assumes "j < length (elements p)"
  shows "name_prop (elements (clearErrors p) ! j) = name_prop (elements p ! j)"
    "value_prop (elements (clearErrors p) ! j) = value_prop (elements p ! j)"
    "id_attr (elements (clearErrors p) ! j) = id_attr (elements p ! j)"
  using assms by (simp_all add: clearErrors_nth Let_def classList_remove_def)

subsection \<open>The page after the three validations\<close>

lemma handleFormSubmit_found:
  assumes "getElementById (js ''name'') p = Some n" "getElementById (js ''email'') p = Some m"
    "getElementById (js ''message'') p = Some g"
  shows "handleFormSubmit e p =
     (if fst (validateField n (clearErrors p)) \<and>
         fst (validateField m (snd (validateField n (clearErrors p)))) \<and>
         fst (validateField g (snd (validateField m (snd (validateField n (clearErrors p))))))
      then (if localName (elements p ! target e) = js ''form''
            then (Done, e\<lparr>defaultPrevented := True\<rparr>,
                  form_reset (target e) (showSuccessMessage (submitted n m g p)))
            else (Threw TypeError, e\<lparr>defaultPrevented := True\<rparr>,
                  showSuccessMessage (submitted n m g p)))
      else (Done, e\<lparr>defaultPrevented := True\<rparr>, submitted n m g p))"
  using assms
  by (simp add: handleFormSubmit_def submitted_def Let_def preventDefault_def split_beta)

lemma three_fields:
  assumes "getElementById (js ''name'') p = Some n" "getElementById (js ''email'') p = Some m"
    "getElementById (js ''message'') p = Some g"
  shows "n < length (elements p)" "m < length (elements p)" "g < length (elements p)"
    "n \<noteq> m" "n \<noteq> g" "m \<noteq> g"
  using getElementById_Some [OF assms(1)] getElementById_Some [OF assms(2)]
    getElementById_Some [OF assms(3)]
  by auto

lemma validated_classList:
  "classList (validated field p j) =
     (if j = field then filter (\<lambda>x. x \<noteq> js ''error'') (classList (elements p ! j)) @
        (if verdict (name_prop (elements p ! field)) (value_prop (elements p ! field)) = None then []
         else [js ''error''])
      else classList (elements p ! j))"
  by (simp add: validated_def Let_def)

lemma validated_textContent:
  "textContent (validated field p j) =
     (if getElementById (name_prop (elements p ! field) @ js ''Error'') p = Some j
      then (case verdict (name_prop (elements p ! field)) (value_prop (elements p ! field)) of
              None \<Rightarrow> [] | Some t \<Rightarrow> t)
      else textContent (elements p ! j))"
  by (simp add: validated_def Let_def)

lemmas submit_simps = validateField_nth validated_fields validated_frame clearErrors_fields
  validateField_fst

lemma submitted_length [simp]: "length (elements (submitted n m g p)) = length (elements p)"
  by (simp add: submitted_def)

lemma submitted_other [simp]:
  "pageYOffset (submitted n m g p) = pageYOffset p" "scrollToCalls (submitted n m g p) = scrollToCalls p"
  "clock (submitted n m g p) = clock p" "timers (submitted n m g p) = timers p"
  by (simp_all add: submitted_def)

lemma submitted_written:
  assumes "n < length (elements p)" "m < length (elements p)" "g < length (elements p)"
  shows "written p (submitted n m g p)"
    and "written (clearErrors p) (submitted n m g p)"
    and "written (snd (validateField n (clearErrors p))) (submitted n m g p)"
    and "written (snd (validateField m (snd (validateField n (clearErrors p))))) (submitted n m g p)"
    and "written p (snd (validateField n (clearErrors p)))"
    and "written p (snd (validateField m (snd (validateField n (clearErrors p)))))"
proof -
  let ?c = "clearErrors p"
  let ?a1 = "snd (validateField n ?c)"
  let ?a2 = "snd (validateField m ?a1)"
  have 0: "written p ?c" by (rule clearErrors_written)
  have 1: "written ?c ?a1" using assms by (intro validateField_written) simp
  have 2: "written ?a1 ?a2" using assms by (intro validateField_written) simp
  have 3: "written ?a2 (submitted n m g p)"
    unfolding submitted_def using assms by (intro validateField_written) simp
  show "written ?a2 (submitted n m g p)" by (rule 3)
  show "written ?a1 (submitted n m g p)" using 2 3 by (rule written_trans)
  then show "written ?c (submitted n m g p)" using 1 by (rule written_trans [rotated])
  then show "written p (submitted n m g p)" using 0 by (rule written_trans [rotated])
  show "written p ?a1" using 0 1 by (rule written_trans)
  then show "written p ?a2" using 2 by (rule written_trans)
qed

lemma submitted_fst:
  assumes "n < length (elements p)" "m < length (elements p)" "g < length (elements p)"
  shows "fst (validateField n (clearErrors p)) = fieldValid p n"
    "fst (validateField m (snd (validateField n (clearErrors p)))) = fieldValid p m"
    "fst (validateField g (snd (validateField m (snd (validateField n (clearErrors p)))))) = fieldValid p g"
  using assms by (simp_all add: submit_simps fieldValid_verdict)

lemma submitted_classList:
  assumes "n < length (elements p)" "m < length (elements p)" "g < length (elements p)"
    and "n \<noteq> m" "n \<noteq> g" "m \<noteq> g" and "j < length (elements p)"
  shows "classList (elements (submitted n m g p) ! j) =
     (if j = n \<or> j = m \<or> j = g
      then filter (\<lambda>x. x \<noteq> js ''error'') (classList (elements p ! j)) @
             (if fieldValid p j then [] else [js ''error''])
      else classList (elements (clearErrors p) ! j))"
  using assms
  by (simp add: submitted_def submit_simps validated_classList fieldValid_verdict clearErrors_classList)

lemma submitted_textContent:
  assumes "n < length (elements p)" "m < length (elements p)" "g < length (elements p)"
    and "j < length (elements p)"
  shows "textContent (elements (submitted n m g p) ! j) =
     (let msg = (\<lambda>f. case verdict (name_prop (elements p ! f)) (value_prop (elements p ! f)) of
                        None \<Rightarrow> [] | Some t \<Rightarrow> t)
      in if getElementById (name_prop (elements p ! g) @ js ''Error'')
              (snd (validateField m (snd (validateField n (clearErrors p))))) = Some j then msg g
         else if getElementById (name_prop (elements p ! m) @ js ''Error'')
              (snd (validateField n (clearErrors p))) = Some j then msg m
         else if getElementById (name_prop (elements p ! n) @ js ''Error'') (clearErrors p) = Some j
         then msg n
         else textContent (elements (clearErrors p) ! j))"
  using assms
  by (simp add: submitted_def submit_simps validated_textContent Let_def)



subsection \<open>Showing the success message, resetting the form, time passing\<close>

lemma fold_timers:
  "fold (\<lambda>(d, el). upd el f) ts p = forEach (map snd ts) f p"
  unfolding forEach_def by (induction ts arbitrary: p) (simp_all add: split_beta)

lemma classList_remove_idem: "classList_remove c (classList_remove c x) = classList_remove c x"
  by (simp add: classList_remove_def)

lemma advance_length [simp]: "length (elements (advance ms p)) = length (elements p)"
  by (simp add: advance_def Let_def fold_timers)

lemma advance_clock [simp]: "clock (advance ms p) = clock p + ms"
  by (simp add: advance_def Let_def fold_timers)

lemma advance_detached [simp]: "detached (advance ms p) = detached p"
  by (simp add: advance_def Let_def fold_timers)

lemma advance_timers: "timers (advance ms p) = filter (\<lambda>(d, el). \<not> d \<le> clock p + ms) (timers p)"
  by (simp add: advance_def Let_def fold_timers)

lemma advance_nth:
  assumes "j < length (elements p)"
  shows "elements (advance ms p) ! j =
     (if \<exists>d. (d, j) \<in> set (timers p) \<and> d \<le> clock p + ms
      then classList_remove (js ''show'') (elements p ! j) else elements p ! j)"
proof -
  have "(j \<in> snd ` {x \<in> set (timers p). case x of (d, el) \<Rightarrow> d \<le> clock p + ms}) =
        (\<exists>d. (d, j) \<in> set (timers p) \<and> d \<le> clock p + ms)"
    by force
  with assms show ?thesis
    by (auto simp add: advance_def Let_def fold_timers forEach_nth_idem classList_remove_idem)
qed

lemma showSuccessMessage_found:
  assumes "getElementById (js ''formSuccess'') p = Some s"
  shows "length (elements (showSuccessMessage p)) = length (elements p)"
    and "timers (showSuccessMessage p) = timers p @ [(clock p + 5000, s)]"
    and "clock (showSuccessMessage p) = clock p"
    and "j < length (elements p) \<Longrightarrow> elements (showSuccessMessage p) ! j =
           (if j = s then classList_add (js ''show'') ((elements p ! j)\<lparr>textContent := successText\<rparr>)
            else elements p ! j)"
    and "detached (showSuccessMessage p) = detached p \<union> set (children_of p s)"
  using assms getElementById_Some [OF assms]
  by (simp_all add: showSuccessMessage_def Let_def setTimeout_def nth_upd successText_def)

lemma showSuccessMessage_written: "written p (showSuccessMessage p)"
proof (cases "getElementById (js ''formSuccess'') p")
  case None
  then show ?thesis by (simp add: showSuccessMessage_def written_refl)
next
  case (Some s)
  note sh = showSuccessMessage_found [OF Some]
  show ?thesis
    unfolding written_def
    by (auto simp add: sh classList_add_def set_children_of)
qed

lemma form_reset_length [simp]: "length (elements (form_reset form p)) = length (elements p)"
  by (simp add: form_reset_def)

lemma form_reset_other [simp]:
  "clock (form_reset form p) = clock p" "timers (form_reset form p) = timers p"
  "detached (form_reset form p) = detached p"
  by (simp_all add: form_reset_def)

lemma event_path_form_reset [simp]: "event_path (form_reset form p) r = event_path p r"
  unfolding form_reset_def by (rule event_path_forEach) simp

lemma treeRoot_form_reset [simp]: "treeRoot (form_reset form p) r = treeRoot p r"
  by (rule treeRoot_cong) simp_all

lemma isConnected_form_reset [simp]: "isConnected (form_reset form p) r = isConnected p r"
  by (simp add: isConnected_def)

lemma form_reset_nth:
  assumes "j < length (elements p)"
  shows "elements (form_reset form p) ! j =
     (if form_owner (elements p ! j) = Some form \<and> treeRoot p j = treeRoot p form
      then (elements p ! j)\<lparr>value_prop := defaultValue (elements p ! j)\<rparr> else elements p ! j)"
  using assms by (simp add: form_reset_def forEach_nth)


lemma advance_hides:
  assumes "(d, s) \<in> set (timers p)" "d \<le> clock p + ms" "s < length (elements p)"
  shows "\<not> isShown (advance ms p) s"
  using assms by (auto simp add: isShown_def advance_nth classList_contains_def classList_remove_def)


subsection \<open>The page after a submission\<close>

lemma submitPage_invalid:
  assumes "getElementById (js ''name'') p = Some n" "getElementById (js ''email'') p = Some m"
    "getElementById (js ''message'') p = Some g"
    and "\<not> (fieldValid p n \<and> fieldValid p m \<and> fieldValid p g)"
  shows "handleFormSubmit e p = (Done, e\<lparr>defaultPrevented := True\<rparr>, submitted n m g p)"
  using assms(4)
  by (auto simp add: handleFormSubmit_found [OF assms(1-3)] submitted_fst [OF three_fields(1-3) [OF assms(1-3)]])

lemma submitPage_valid:
  assumes "getElementById (js ''name'') p = Some n" "getElementById (js ''email'') p = Some m"
    "getElementById (js ''message'') p = Some g"
    and "fieldValid p n" "fieldValid p m" "fieldValid p g"
  shows "handleFormSubmit e p =
     (if localName (elements p ! target e) = js ''form''
      then (Done, e\<lparr>defaultPrevented := True\<rparr>,
            form_reset (target e) (showSuccessMessage (submitted n m g p)))
      else (Threw TypeError, e\<lparr>defaultPrevented := True\<rparr>,
            showSuccessMessage (submitted n m g p)))"
  using assms(4-)
  by (simp add: handleFormSubmit_found [OF assms(1-3)] submitted_fst [OF three_fields(1-3) [OF assms(1-3)]])

text \<open>
  Whatever the handler takes out of the document had a parent; on a page without
  nesting nothing is taken out.
\<close>

lemma submitPage_detached:
  assumes "getElementById (js ''name'') p = Some n" "getElementById (js ''email'') p = Some m"
    "getElementById (js ''message'') p = Some g"
  shows "\<forall>c \<in> detached (submitPage e p) - detached p.
           c < length (elements p) \<and> parentNode (elements p ! c) \<noteq> None"
proof -
  note lt = three_fields [OF assms]
  have u: "written p (submitted n m g p)" by (rule submitted_written(1) [OF lt(1-3)])
  then have s: "written p (showSuccessMessage (submitted n m g p))"
    using showSuccessMessage_written by (rule written_trans)
  have "detached (submitPage e p) = detached (submitted n m g p) \<or>
        detached (submitPage e p) = detached (showSuccessMessage (submitted n m g p))"
    by (simp add: submitPage_def handleFormSubmit_found [OF assms])
  with u s show ?thesis by (auto simp add: written_def)
qed

lemma flat_submitPage:
  assumes "getElementById (js ''name'') p = Some n" "getElementById (js ''email'') p = Some m"
    "getElementById (js ''message'') p = Some g"
    and "detached p = {}" "\<forall>x \<in> set (elements p). parentNode x = None"
  shows "detached (submitPage e p) = {}"
proof (rule ccontr)
  assume "detached (submitPage e p) \<noteq> {}"
  then obtain c where "c \<in> detached (submitPage e p) - detached p" using assms(4) by auto
  with submitPage_detached [OF assms(1-3), of e]
  have "c < length (elements p)" "parentNode (elements p ! c) \<noteq> None" by auto
  with assms(5) show False by simp
qed

lemma flat_submitted:
  assumes "n < length (elements p)" "m < length (elements p)" "g < length (elements p)"
    and "detached p = {}" "\<forall>x \<in> set (elements p). parentNode x = None"
  shows "detached (submitted n m g p) = {}"
    and "getElementById i (submitted n m g p) = getElementById i p"
proof -
  note w = submitted_written(1) [OF assms(1-3)]
  show d: "detached (submitted n m g p) = {}"
  proof (rule ccontr)
    assume "detached (submitted n m g p) \<noteq> {}"
    then obtain c where "c \<in> detached (submitted n m g p) - detached p" using assms(4) by auto
    with w have "c < length (elements p)" "parentNode (elements p ! c) \<noteq> None"
      by (auto simp add: written_def)
    with assms(5) show False by simp
  qed
  have "matching (\<lambda>e. id_attr e = Some i) (submitted n m g p) = matching (\<lambda>e. id_attr e = Some i) p"
    by (rule matching_cong) (simp_all add: isConnected_empty d assms(4) written_fields [OF w])
  then show "getElementById i (submitted n m g p) = getElementById i p"
    by (simp add: getElementById_def)
qed

lemma submitPage_valid_props:
  assumes "getElementById (js ''name'') p = Some n" "getElementById (js ''email'') p = Some m"
    "getElementById (js ''message'') p = Some g"
    and "fieldValid p n" "fieldValid p m" "fieldValid p g"
    and "getElementById (js ''formSuccess'') (submitted n m g p) = Some s"
  shows "length (elements (submitPage e p)) = length (elements p)"
    and "clock (submitPage e p) = clock p"
    and "timers (submitPage e p) = timers p @ [(clock p + 5000, s)]"
    and "\<forall>j < length (elements p).
           id_attr (elements (submitPage e p) ! j) = id_attr (elements p ! j) \<and>
           name_prop (elements (submitPage e p) ! j) = name_prop (elements p ! j) \<and>
           form_owner (elements (submitPage e p) ! j) = form_owner (elements p ! j) \<and>
           defaultValue (elements (submitPage e p) ! j) = defaultValue (elements p ! j) \<and>
           parentNode (elements (submitPage e p) ! j) = parentNode (elements p ! j)"
    and "localName (elements p ! target e) = js ''form'' \<Longrightarrow>
         \<forall>j < length (elements p). value_prop (elements (submitPage e p) ! j) =
           (if form_owner (elements p ! j) = Some (target e) \<and>
               treeRoot (submitPage e p) j = treeRoot (submitPage e p) (target e)
            then defaultValue (elements p ! j) else value_prop (elements p ! j))"
    and "isShown (submitPage e p) s"
    and "textContent (elements (submitPage e p) ! s) = successText"
proof -
  note lt = three_fields [OF assms(1-3)]
  let ?u = "submitted n m g p"
  let ?v = "showSuccessMessage ?u"
  have q: "submitPage e p =
      (if localName (elements p ! target e) = js ''form'' then form_reset (target e) ?v else ?v)"
    by (simp add: submitPage_def submitPage_valid [OF assms(1-6)])
  have wu: "written p ?u" by (rule submitted_written(1) [OF lt(1-3)])
  have wv: "written ?u ?v" by (rule showSuccessMessage_written)
  note s = assms(7)
  have sl: "s < length (elements p)" using getElementById_Some [OF s] by simp
  note sh = showSuccessMessage_found [OF s]
  have wpv: "written p ?v" using wu wv by (rule written_trans)
  note f = written_fields [OF wpv]
  show len: "length (elements (submitPage e p)) = length (elements p)"
    and "clock (submitPage e p) = clock p"
    and "timers (submitPage e p) = timers p @ [(clock p + 5000, s)]"
    by (simp_all add: q sh)
  have tr: "treeRoot (submitPage e p) x = treeRoot ?v x" for x by (simp add: q)
  have nth: "elements (submitPage e p) ! j =
      (if localName (elements p ! target e) = js ''form'' \<and>
          form_owner (elements p ! j) = Some (target e) \<and>
          treeRoot (submitPage e p) j = treeRoot (submitPage e p) (target e)
       then (elements ?v ! j)\<lparr>value_prop := defaultValue (elements p ! j)\<rparr> else elements ?v ! j)"
    if "j < length (elements p)" for j
    using that unfolding tr by (simp add: q form_reset_nth sh(1) f)
  show "\<forall>j < length (elements p).
           id_attr (elements (submitPage e p) ! j) = id_attr (elements p ! j) \<and>
           name_prop (elements (submitPage e p) ! j) = name_prop (elements p ! j) \<and>
           form_owner (elements (submitPage e p) ! j) = form_owner (elements p ! j) \<and>
           defaultValue (elements (submitPage e p) ! j) = defaultValue (elements p ! j) \<and>
           parentNode (elements (submitPage e p) ! j) = parentNode (elements p ! j)"
    by (simp add: nth f)
  show "\<forall>j < length (elements p). value_prop (elements (submitPage e p) ! j) =
           (if form_owner (elements p ! j) = Some (target e) \<and>
               treeRoot (submitPage e p) j = treeRoot (submitPage e p) (target e)
            then defaultValue (elements p ! j) else value_prop (elements p ! j))"
    if "localName (elements p ! target e) = js ''form''"
    using that by (simp add: nth f)
  have vs: "elements ?v ! s = classList_add (js ''show'') ((elements ?u ! s)\<lparr>textContent := successText\<rparr>)"
    using sl by (simp add: sh)
  show "isShown (submitPage e p) s"
    using sl by (simp add: isShown_def classList_contains_def nth vs classList_add_def)
  show "textContent (elements (submitPage e p) ! s) = successText"
    using sl by (simp add: nth vs classList_add_def)
qed

lemmas page_defs = contact_page_def page_of_def form_el_def control_el_def input_el_def error_el_def
  success_el_def blank_def submitEvent_def

lemma trim_Jane: "trim (js ''Jane'') = js ''Jane''" 
  by (simp add: trim_def js_def isWhiteSpace_def)
lemma trim_hi: "trim (js ''hi'') = js ''hi''" 
  by (simp add: trim_def js_def isWhiteSpace_def)

lemma ev1: "getElementById (js ''name'') (contact_page a b c) = Some 1"
  "getElementById (js ''email'') (contact_page a b c) = Some 3"
  "getElementById (js ''message'') (contact_page a b c) = Some 5"
  "getElementById (js ''formSuccess'') (contact_page a b c) = Some 7"
  "getElementById (js ''nameError'') (contact_page a b c) = Some 2"
  "getElementById (js ''emailError'') (contact_page a b c) = Some 4"
  "getElementById (js ''messageError'') (contact_page a b c) = Some 6"
  by (simp_all add: getElementById_def matching_eval first_def page_defs)





lemma verdict_examples:
  "verdict (js ''name'') [] = Some (js ''Nama harus diisi'')"
  "verdict (js ''email'') (js ''a@b.com'') = None"
  "verdict (js ''message'') (js ''hi'') = None"
  "verdict (js ''name'') (js ''Jane'') = None"
  by (simp_all add: verdict_def trim_def getFieldLabel_simps trim_good [unfolded trim_def]
      trim_hi [unfolded trim_def] trim_Jane [unfolded trim_def] regex_good)


text \<open>
  When the error element of the name control lies inside another element of class
  \<open>form-error\<close>, clearing the errors takes it out of the document, \<open>validateField\<close> does
  not find it, and the message for the empty name is written nowhere.
\<close>

lemmas nested_defs = nested_page_def page_of_def form_el_def control_el_def input_el_def
  error_el_def success_el_def blank_def

lemma ev_nested: "getElementById (js ''name'') nested_page = Some 1"
  "getElementById (js ''email'') nested_page = Some 4"
  "getElementById (js ''message'') nested_page = Some 6"
  "getElementById (js ''nameError'') nested_page = Some 3"
  "querySelectorAll_class (js ''form-error'') nested_page = [2, 3, 5, 7]"
  by (simp_all add: getElementById_def querySelectorAll_class_def classList_contains_def matching_eval
      first_def nested_defs)

lemma nth_nested:
  "name_prop (elements nested_page ! 1) = js ''name''" "value_prop (elements nested_page ! 1) = []"
  "name_prop (elements nested_page ! 4) = js ''email''" "value_prop (elements nested_page ! 4) = js ''a@b.com''"
  "name_prop (elements nested_page ! 6) = js ''message''" "value_prop (elements nested_page ! 6) = js ''hi''"
  "length (elements nested_page) = 9"
  by (simp_all add: nested_defs)

lemma nested_all:
  "map parentNode (elements nested_page) = [None, None, None, Some 2, None, None, None, None, None]"
  "map textContent (elements nested_page) = [[], [], [], [], [], [], [], [], []]"
  "map (\<lambda>x. id_attr x = Some (js ''nameError'')) (elements nested_page) =
     [False, False, False, True, False, False, False, False, False]"
  by (simp_all add: nested_defs)

lemma nested_nth:
  assumes "j < length (elements nested_page)"
  shows "parentNode (elements nested_page ! j) = (if j = 3 then Some 2 else None)"
    and "textContent (elements nested_page ! j) = []"
    and "id_attr (elements nested_page ! j) = Some (js ''nameError'') \<longleftrightarrow> j = 3"
proof -
  from assms have j: "j < 9" by (simp add: nth_nested)
  have "parentNode (elements nested_page ! j) = map parentNode (elements nested_page) ! j"
    "textContent (elements nested_page ! j) = map textContent (elements nested_page) ! j"
    "(id_attr (elements nested_page ! j) = Some (js ''nameError'')) =
       map (\<lambda>x. id_attr x = Some (js ''nameError'')) (elements nested_page) ! j"
    using assms by simp_all
  with j show "parentNode (elements nested_page ! j) = (if j = 3 then Some 2 else None)"
    and "textContent (elements nested_page ! j) = []"
    and "id_attr (elements nested_page ! j) = Some (js ''nameError'') \<longleftrightarrow> j = 3"
    unfolding nested_all by (auto simp add: nth_Cons' less_Suc_eq numeral_eq_Suc)
qed

lemma nested_error_element_not_found:
  "getElementById (js ''nameError'') nested_page = Some 3 \<and>
   \<not> fieldValid nested_page 1 \<and>
   hasError (submitPage submitEvent nested_page) 1 \<and>
   \<not> isConnected (submitPage submitEvent nested_page) 3 \<and>
   (\<forall>j < length (elements nested_page).
      textContent (elements (submitPage submitEvent nested_page) ! j) = [])"
proof -
  let ?p = nested_page
  let ?c = "clearErrors ?p"
  let ?q = "submitted 1 4 6 ?p"
  note lt = three_fields [OF ev_nested(1-3)]
  note w = submitted_written [OF lt(1-3)]
  have v: "\<not> fieldValid ?p 1" "fieldValid ?p 4" "fieldValid ?p 6"
    by (simp_all add: fieldValid_verdict nth_nested verdict_examples del: One_nat_def)
  then have q: "submitPage submitEvent ?p = ?q"
    by (simp add: submitPage_def submitPage_invalid [OF ev_nested(1-3)])
  have "3 \<in> set (children_of ?p 2)"
    by (simp add: set_children_of nested_nth nth_nested)
  then have d: "3 \<in> detached ?c"
    by (simp add: clearErrors_detached ev_nested)
  have dq: "3 \<in> detached ?q" using written_detached [OF w(2)] d by auto
  have gone: "\<not> isConnected ?q 3" using dq isConnected_self by blast
  have "\<not> isConnected ?c 3" using d isConnected_self by blast
  then have none: "getElementById (js ''nameError'') ?c \<noteq> Some x" for x
  proof (cases "x = 3")
    case True
    with \<open>\<not> isConnected ?c 3\<close> show ?thesis by (auto dest: getElementById_connected)
  next
    case False
    show ?thesis
    proof
      assume "getElementById (js ''nameError'') ?c = Some x"
      then have "x < length (elements ?p)" "id_attr (elements ?c ! x) = Some (js ''nameError'')"
        using getElementById_Some [of "js ''nameError''" ?c x] by simp_all
      with False show False by (simp add: clearErrors_fields nested_nth)
    qed
  qed
  have err: "hasError ?q 1"
    using lt v by (simp add: hasError_def classList_contains_def submitted_classList)
  have texts: "textContent (elements ?q ! j) = []" if "j < length (elements ?p)" for j
    using that none
    by (simp add: submitted_textContent [OF lt(1-3) that] Let_def nth_nested verdict_examples
        clearErrors_textContent nested_nth del: One_nat_def)
  from ev_nested(4) v(1) err gone texts show ?thesis unfolding q by simp
qed


lemma nth_contact:
  "name_prop (elements (contact_page a b c) ! 1) = js ''name''"
  "name_prop (elements (contact_page a b c) ! 3) = js ''email''"
  "name_prop (elements (contact_page a b c) ! 5) = js ''message''"
  "value_prop (elements (contact_page a b c) ! 1) = js a"
  "value_prop (elements (contact_page a b c) ! 3) = js b"
  "value_prop (elements (contact_page a b c) ! 5) = js c"
  "length (elements (contact_page a b c)) = 8"
  "clock (contact_page a b c) = 0" "timers (contact_page a b c) = []"
  "\<forall>f \<in> {1, 3, 5}. form_owner (elements (contact_page a b c) ! f) = Some (target submitEvent) \<and>
     defaultValue (elements (contact_page a b c) ! f) = []"
  by (simp_all add: page_defs)

lemma flat_contact:
  "detached (contact_page a b c) = {}" "\<forall>x \<in> set (elements (contact_page a b c)). parentNode x = None"
  by (simp_all add: page_defs)

lemma spec_good: "spec_email_pattern (js ''a@b.com'')"
  by (simp add: emailRegex_spec [symmetric] regex_good)







section \<open>The hide timer\<close>

lemma sameMarkup_refl: "sameMarkup p p"
  by (simp add: sameMarkup_def)

lemma sameMarkup_trans: "sameMarkup p q \<Longrightarrow> sameMarkup q r \<Longrightarrow> sameMarkup p r"
  by (simp add: sameMarkup_def)

lemma sameMarkup_connected:
  assumes "sameMarkup p q" "r < length (elements p)"
  shows "isConnected q r = isConnected p r"
proof (rule isConnected_cong)
  show "event_path q r = event_path p r"
    using assms by (intro event_path_cong) (simp_all add: sameMarkup_def)
  show "detached q = detached p" using assms by (simp add: sameMarkup_def)
qed

lemma sameMarkup_getElementById:
  assumes "sameMarkup p q"
  shows "getElementById i q = getElementById i p"
proof -
  have "matching (\<lambda>e. id_attr e = Some i) q = matching (\<lambda>e. id_attr e = Some i) p"
  proof (rule matching_cong)
    show "length (elements q) = length (elements p)" using assms by (simp add: sameMarkup_def)
    show "isConnected q r = isConnected p r" if "r < length (elements p)" for r
      using assms that by (rule sameMarkup_connected)
    show "(id_attr (elements q ! r) = Some i) = (id_attr (elements p ! r) = Some i)"
      if "r < length (elements p)" for r
      using assms that by (simp add: sameMarkup_def)
  qed
  then show ?thesis by (simp add: getElementById_def)
qed

lemma sameMarkup_advance: "sameMarkup p (advance ms p)"
  by (simp add: sameMarkup_def advance_nth classList_remove_def)

lemma sameMarkup_typeInto: "sameMarkup p (typeInto f v p)"
  by (simp add: sameMarkup_def typeInto_def nth_upd)

lemma pending_timer_hides:
  assumes "getElementById (js ''name'') p = Some n" "getElementById (js ''email'') p = Some m"
    "getElementById (js ''message'') p = Some g"
    and "fieldValid p n" "fieldValid p m" "fieldValid p g"
    and "getElementById (js ''formSuccess'') (submitted n m g p) = Some s"
    and "(d, s) \<in> set (timers p)" "clock p \<le> d"
  shows "timers (submitPage e p) = timers p @ [(clock p + 5000, s)]"
    and "isShown (submitPage e p) s"
    and "clock (advance (d - clock p) (submitPage e p)) = d"
    and "\<not> isShown (advance (d - clock p) (submitPage e p)) s"
proof -
  note pr = submitPage_valid_props [OF assms(1-7)]
  have sl: "s < length (elements (submitPage e p))"
    using getElementById_Some [OF assms(7)] by (simp add: pr(1))
  show "timers (submitPage e p) = timers p @ [(clock p + 5000, s)]" by (rule pr(3))
  show "isShown (submitPage e p) s" by (rule pr(6))
  show "clock (advance (d - clock p) (submitPage e p)) = d"
    using assms(9) by (simp add: pr(2))
  have "(d, s) \<in> set (timers (submitPage e p))" using assms(8) by (simp add: pr(3))
  then show "\<not> isShown (advance (d - clock p) (submitPage e p)) s"
    by (rule advance_hides [OF _ _ sl]) (simp add: pr(2) assms(9))
qed

text \<open>
  Claim C7, as the code has it. When a fully valid submission happens while a hide
  timer of an earlier one is still pending, the pending timer is neither cancelled nor
  replaced: a second timer, due 5000 ms after this submission, is added behind it, and
  when the first timer comes due, less than 5000 ms after the second submission, the
  success message loses the visibility class. The success element is the one that
  \<open>showSuccessMessage\<close> finds at this submission and that carries the pending timer.
\<close>

theorem handleFormSubmit_stacks_timers:
  assumes "getElementById (js ''name'') p = Some n" and "name_prop (elements p ! n) = js ''name''"
    and "getElementById (js ''email'') p = Some m" and "name_prop (elements p ! m) = js ''email''"
    and "getElementById (js ''message'') p = Some g" and "name_prop (elements p ! g) = js ''message''"
    and "trim (value_prop (elements p ! n)) \<noteq> []"
    and "trim (value_prop (elements p ! m)) \<noteq> []"
    and "spec_email_pattern (trim (value_prop (elements p ! m)))"
    and "trim (value_prop (elements p ! g)) \<noteq> []"
    and "getElementById (js ''formSuccess'') (submitted n m g p) = Some s"
    and "(d, s) \<in> set (timers p)" and "clock p \<le> d" and "d < clock p + 5000"
  shows "timers (submitPage e p) = timers p @ [(clock p + 5000, s)] \<and>
     (d, s) \<in> set (timers (submitPage e p)) \<and>
     isShown (submitPage e p) s \<and>
     clock (advance (d - clock p) (submitPage e p)) = d \<and>
     \<not> isShown (advance (d - clock p) (submitPage e p)) s"
proof -
  have v: "fieldValid p n" "fieldValid p m" "fieldValid p g"
    using assms(2,4,6-10) by (simp_all add: fieldValid_def)
  note h = pending_timer_hides [OF assms(1,3,5) v assms(11-13)]
  from h(1) assms(12) have "(d, s) \<in> set (timers (submitPage e p))" by simp
  with h show ?thesis by simp
qed

lemma typeInto_simps [simp]:
  "length (elements (typeInto f v p)) = length (elements p)"
  "clock (typeInto f v p) = clock p" "timers (typeInto f v p) = timers p"
  by (simp_all add: typeInto_def)

lemma typeInto_value:
  "j < length (elements p) \<Longrightarrow>
     value_prop (elements (typeInto f v p) ! j) = (if j = f then v else value_prop (elements p ! j))"
  by (simp add: typeInto_def nth_upd)

lemma sameMarkup_name:
  "sameMarkup p q \<Longrightarrow> j < length (elements p) \<Longrightarrow> name_prop (elements q ! j) = name_prop (elements p ! j)"
  by (simp add: sameMarkup_def)

lemma sameMarkup_length: "sameMarkup p q \<Longrightarrow> length (elements q) = length (elements p)"
  by (simp add: sameMarkup_def)

lemma contact_valid:
  "fieldValid (contact_page ''Jane'' ''a@b.com'' ''hi'') 1"
  "fieldValid (contact_page ''Jane'' ''a@b.com'' ''hi'') 3"
  "fieldValid (contact_page ''Jane'' ''a@b.com'' ''hi'') 5"
  by (simp_all add: fieldValid_verdict nth_contact verdict_examples del: One_nat_def)

lemma first_submit_facts:
  "sameMarkup (contact_page ''Jane'' ''a@b.com'' ''hi'') first_submit"
  "clock first_submit = 0" "timers first_submit = [(5000, 7)]"
proof -
  let ?P = "contact_page ''Jane'' ''a@b.com'' ''hi''"
  have d: "detached first_submit = {}"
    unfolding first_submit_def by (rule flat_submitPage [OF ev1(1-3) flat_contact])
  have "getElementById (js ''formSuccess'') (submitted 1 3 5 ?P) = Some 7"
    by (simp add: flat_submitted(2) [OF three_fields(1-3) [OF ev1(1-3)] flat_contact] ev1
        del: One_nat_def)
  note pr = submitPage_valid_props [OF ev1(1-3) contact_valid this, of submitEvent]
  show "sameMarkup ?P first_submit"
    unfolding sameMarkup_def using pr(1,4) d by (simp add: first_submit_def flat_contact)
  show "clock first_submit = 0" "timers first_submit = [(5000, 7)]"
    using pr(2,3) by (simp_all add: first_submit_def nth_contact)
qed

lemma refilled_facts:
  "sameMarkup (contact_page ''Jane'' ''a@b.com'' ''hi'') refilled"
  "clock refilled = 3000" "timers refilled = [(5000, 7)]"
  "value_prop (elements refilled ! 1) = js ''Jane''"
  "value_prop (elements refilled ! 3) = js ''a@b.com''"
  "value_prop (elements refilled ! 5) = js ''hi''"
proof -
  let ?P = "contact_page ''Jane'' ''a@b.com'' ''hi''"
  show "sameMarkup ?P refilled"
  proof -
    note first_submit_facts(1)
    also note sameMarkup_advance [of first_submit 3000]
    also (sameMarkup_trans) note sameMarkup_typeInto [of "advance 3000 first_submit" 5 "js ''hi''"]
    also (sameMarkup_trans) note sameMarkup_typeInto [of "typeInto 5 (js ''hi'') (advance 3000 first_submit)" 3 "js ''a@b.com''"]
    also (sameMarkup_trans) note sameMarkup_typeInto [of "typeInto 3 (js ''a@b.com'') (typeInto 5 (js ''hi'')
      (advance 3000 first_submit))" 1 "js ''Jane''"]
    finally (sameMarkup_trans) show ?thesis by (simp only: refilled_def)
  qed
  have len: "length (elements first_submit) = 8"
    using sameMarkup_length [OF first_submit_facts(1)] by (simp add: nth_contact)
  show "clock refilled = 3000" "timers refilled = [(5000, 7)]"
    by (simp_all add: refilled_def first_submit_facts advance_timers)
  show "value_prop (elements refilled ! 1) = js ''Jane''"
    "value_prop (elements refilled ! 3) = js ''a@b.com''"
    "value_prop (elements refilled ! 5) = js ''hi''"
    by (simp_all add: refilled_def typeInto_value len del: One_nat_def)
qed

lemma refilled_ids:
  "getElementById (js ''name'') refilled = Some 1" "getElementById (js ''email'') refilled = Some 3"
  "getElementById (js ''message'') refilled = Some 5" "getElementById (js ''formSuccess'') refilled = Some 7"
  by (simp_all add: sameMarkup_getElementById [OF refilled_facts(1)] ev1)

lemma refilled_names:
  "name_prop (elements refilled ! 1) = js ''name''" "name_prop (elements refilled ! 3) = js ''email''"
  "name_prop (elements refilled ! 5) = js ''message''"
  by (simp_all add: sameMarkup_name [OF refilled_facts(1)] nth_contact del: One_nat_def)

lemma refilled_valid: "fieldValid refilled 1" "fieldValid refilled 3" "fieldValid refilled 5"
  by (simp_all add: fieldValid_verdict refilled_names refilled_facts verdict_examples del: One_nat_def)

lemma refilled_success: "getElementById (js ''formSuccess'') (submitted 1 3 5 refilled) = Some 7"
proof -
  let ?P = "contact_page ''Jane'' ''a@b.com'' ''hi''"
  have d: "detached refilled = {}"
    using refilled_facts(1) by (simp add: sameMarkup_def flat_contact)
  have "parentNode x = None" if "x \<in> set (elements refilled)" for x
  proof -
    from that obtain j where j: "j < length (elements refilled)" "x = elements refilled ! j"
      by (auto simp add: in_set_conv_nth)
    with refilled_facts(1) have "j < length (elements ?P)"
      "parentNode x = parentNode (elements ?P ! j)"
      by (simp_all add: sameMarkup_def)
    with flat_contact(2) [of "''Jane''" "''a@b.com''" "''hi''"] show ?thesis by simp
  qed
  then have "\<forall>x \<in> set (elements refilled). parentNode x = None" by blast
  from flat_submitted(2) [OF three_fields(1-3) [OF refilled_ids(1-3)] d this] refilled_ids(4)
  show ?thesis by (simp del: One_nat_def)
qed

theorem handleFormSubmit_stacks_timers_witness:
  "timers second_submit = [(5000, 7), (8000, 7)] \<and> isShown second_submit 7 \<and>
   clock (advance 2000 second_submit) = 5000 \<and> \<not> isShown (advance 2000 second_submit) 7"
proof -
  have h: "trim (value_prop (elements refilled ! 1)) \<noteq> []" "trim (value_prop (elements refilled ! 3)) \<noteq> []"
    "spec_email_pattern (trim (value_prop (elements refilled ! 3)))"
    "trim (value_prop (elements refilled ! 5)) \<noteq> []"
    by (simp_all add: refilled_facts trim_Jane trim_good trim_hi spec_good del: One_nat_def)
  have t: "(5000, 7) \<in> set (timers refilled)" "clock refilled \<le> 5000" "5000 < clock refilled + 5000"
    by (simp_all add: refilled_facts)
  from handleFormSubmit_stacks_timers [OF refilled_ids(1) refilled_names(1) refilled_ids(2)
      refilled_names(2) refilled_ids(3) refilled_names(3) h refilled_success t, of submitEvent]
  show ?thesis
    by (simp add: second_submit_def [symmetric] refilled_facts)
qed

text \<open>
  Claim C7 as stated fails: a valid submission at time 0 and a second valid one at time
  3000 leave the success message hidden at time 5000, not shown until 8000.
\<close>

theorem hide_timer_not_replaced_counterexample:
  "fieldValid (contact_page ''Jane'' ''a@b.com'' ''hi'') 1 \<and>
   fieldValid (contact_page ''Jane'' ''a@b.com'' ''hi'') 3 \<and>
   fieldValid (contact_page ''Jane'' ''a@b.com'' ''hi'') 5 \<and>
   clock (contact_page ''Jane'' ''a@b.com'' ''hi'') = 0 \<and>
   fieldValid refilled 1 \<and> fieldValid refilled 3 \<and> fieldValid refilled 5 \<and>
   clock refilled = 3000 \<and>
   isShown second_submit 7 \<and>
   clock (advance 2000 second_submit) = 5000 \<and> (5000 :: nat) < 3000 + 5000 \<and>
   \<not> isShown (advance 2000 second_submit) 7"
proof -
  note h = pending_timer_hides [OF refilled_ids(1-3) refilled_valid refilled_success, of 5000 submitEvent,
      folded second_submit_def]
  have t: "(5000, 7) \<in> set (timers refilled)" "clock refilled \<le> 5000"
    by (simp_all add: refilled_facts)
  from h(2-4) [OF t] contact_valid refilled_valid show ?thesis
    by (simp add: refilled_facts nth_contact)
qed


section \<open>The mobile menu\<close>

lemma onlyActive_refl: "onlyActive p p"
  by (simp add: onlyActive_def)

lemma onlyActive_trans:
  assumes "onlyActive p q" "onlyActive q r"
  shows "onlyActive p r"
  unfolding onlyActive_def
proof (intro conjI allI impI)
  show "length (elements r) = length (elements p)" using assms by (simp add: onlyActive_def)
next
  fix j assume j: "j < length (elements p)"
  with assms have 1: "(elements q ! j)\<lparr>classList := classList (elements p ! j)\<rparr> = elements p ! j"
    and 2: "(elements r ! j)\<lparr>classList := classList (elements q ! j)\<rparr> = elements q ! j"
    by (simp_all add: onlyActive_def)
  have "(elements r ! j)\<lparr>classList := classList (elements p ! j)\<rparr> =
        ((elements r ! j)\<lparr>classList := classList (elements q ! j)\<rparr>)\<lparr>classList := classList (elements p ! j)\<rparr>"
    by simp
  also have "\<dots> = elements p ! j" by (simp only: 1 2)
  finally show "(elements r ! j)\<lparr>classList := classList (elements p ! j)\<rparr> = elements p ! j" .
next
  fix j c assume "j < length (elements p)" "c \<noteq> js ''active''"
  with assms show "(c \<in> set (classList (elements r ! j))) = (c \<in> set (classList (elements p ! j)))"
    by (simp add: onlyActive_def)
next
  show "detached r = detached p" using assms by (simp add: onlyActive_def)
qed

lemma onlyActive_upd:
  assumes "\<And>x. f x = x\<lparr>classList := classList (f x)\<rparr>"
    and "\<And>x c. c \<noteq> js ''active'' \<Longrightarrow> c \<in> set (classList (f x)) \<longleftrightarrow> c \<in> set (classList x)"
  shows "onlyActive p (upd r f p)"
  unfolding onlyActive_def
proof (intro conjI allI impI)
  fix j assume "j < length (elements p)"
  have "(f x)\<lparr>classList := classList x\<rparr> = x" for x
    by (subst assms(1)) simp
  then show "(elements (upd r f p) ! j)\<lparr>classList := classList (elements p ! j)\<rparr> = elements p ! j"
    by (simp add: nth_upd)
next
  fix j c assume "j < length (elements p)" "c \<noteq> js ''active''"
  then show "(c \<in> set (classList (elements (upd r f p) ! j))) = (c \<in> set (classList (elements p ! j)))"
    by (simp add: nth_upd assms(2))
qed simp_all

lemma onlyActive_remove: "onlyActive p (upd r (classList_remove (js ''active'')) p)"
  by (rule onlyActive_upd) (auto simp: classList_remove_def)

lemma onlyActive_toggle: "onlyActive p (upd r (classList_toggle (js ''active'')) p)"
  by (rule onlyActive_upd) (auto simp: classList_toggle_def classList_remove_def classList_add_def)

lemma onlyActive_smoothScrollTo: "onlyActive p (smoothScrollTo s p)"
  by (simp add: onlyActive_def)

lemma onlyActive_fields:
  assumes "onlyActive p q" "j < length (elements p)"
  shows "href_attr (elements q ! j) = href_attr (elements p ! j)"
    "id_attr (elements q ! j) = id_attr (elements p ! j)"
    "parentNode (elements q ! j) = parentNode (elements p ! j)"
proof -
  from assms have "(elements q ! j)\<lparr>classList := classList (elements p ! j)\<rparr> = elements p ! j"
    by (simp add: onlyActive_def)
  then have e: "href_attr ((elements q ! j)\<lparr>classList := classList (elements p ! j)\<rparr>) = href_attr (elements p ! j)"
    "id_attr ((elements q ! j)\<lparr>classList := classList (elements p ! j)\<rparr>) = id_attr (elements p ! j)"
    "parentNode ((elements q ! j)\<lparr>classList := classList (elements p ! j)\<rparr>) = parentNode (elements p ! j)"
    by simp_all
  from e show "href_attr (elements q ! j) = href_attr (elements p ! j)"
    "id_attr (elements q ! j) = id_attr (elements p ! j)"
    "parentNode (elements q ! j) = parentNode (elements p ! j)"
    by simp_all
qed

lemma event_path_onlyActive:
  assumes "onlyActive p q" "x < length (elements p)"
  shows "event_path q x = event_path p x"
  using assms by (intro event_path_cong) (simp_all add: onlyActive_fields, simp add: onlyActive_def)

lemma onlyActive_connected:
  assumes "onlyActive p q" "r < length (elements p)"
  shows "isConnected q r = isConnected p r"
  using event_path_onlyActive [OF assms] assms(1)
  by (intro isConnected_cong) (simp_all add: onlyActive_def)

lemma onlyActive_getElementById:
  assumes "onlyActive p q"
  shows "getElementById i q = getElementById i p"
proof -
  have "matching (\<lambda>e. id_attr e = Some i) q = matching (\<lambda>e. id_attr e = Some i) p"
  proof (rule matching_cong)
    show "length (elements q) = length (elements p)" using assms by (simp add: onlyActive_def)
    show "isConnected q r = isConnected p r" if "r < length (elements p)" for r
      using assms that by (rule onlyActive_connected)
    show "(id_attr (elements q ! r) = Some i) = (id_attr (elements p ! r) = Some i)"
      if "r < length (elements p)" for r
      using assms that by (simp add: onlyActive_fields)
  qed
  then show ?thesis by (simp add: getElementById_def)
qed

lemma onlyActive_querySelector:
  assumes "onlyActive p q" "c \<noteq> js ''active''"
  shows "querySelector_class c q = querySelector_class c p"
proof -
  have "matching (classList_contains c) q = matching (classList_contains c) p"
  proof (rule matching_cong)
    show "length (elements q) = length (elements p)" using assms by (simp add: onlyActive_def)
    show "isConnected q r = isConnected p r" if "r < length (elements p)" for r
      using assms(1) that by (rule onlyActive_connected)
    show "classList_contains c (elements q ! r) = classList_contains c (elements p ! r)"
      if "r < length (elements p)" for r
      using assms that by (simp add: onlyActive_def classList_contains_def)
  qed
  then show ?thesis by (simp add: querySelector_class_def querySelectorAll_class_def)
qed

lemma querySelector_class_Some:
  assumes "querySelector_class c p = Some r"
  shows "r < length (elements p)" "c \<in> set (classList (elements p ! r))"
  using first_Some [of "matching (classList_contains c) p" r] assms
  by (simp_all add: querySelector_class_def querySelectorAll_class_def set_matching classList_contains_def)

lemma isActive_upd_remove:
  "r < length (elements p) \<Longrightarrow>
   isActive (upd r (classList_remove (js ''active'')) p) j \<longleftrightarrow> j \<noteq> r \<and> isActive p j"
  by (auto simp add: isActive_def nth_upd classList_contains_def classList_remove_def)

lemma isActive_upd_toggle:
  "r < length (elements p) \<Longrightarrow>
   isActive (upd r (classList_toggle (js ''active'')) p) j \<longleftrightarrow> (if j = r then \<not> isActive p j else isActive p j)"
  by (auto simp add: isActive_def nth_upd classList_contains_def classList_toggle_def
      classList_remove_def classList_add_def)

lemma isActive_smoothScrollTo [simp]: "isActive (smoothScrollTo s p) j = isActive p j"
  by (simp add: isActive_def)

lemma navLinkClick_cases:
  assumes "querySelector_class (js ''nav-menu'') p = Some m"
    and "querySelector_class (js ''nav-toggle'') p = Some t"
  shows "snd (snd (navLinkClick l e p)) =
     (case href_attr (elements p ! l) of
        None \<Rightarrow> p
      | Some href \<Rightarrow>
          if startsWith 0x23 href then
            (case getElementById (drop 1 href) p of
               None \<Rightarrow> p
             | Some ts \<Rightarrow>
                 if isActive p m
                 then upd t (classList_remove (js ''active''))
                        (upd m (classList_remove (js ''active'')) (smoothScrollTo ts p))
                 else smoothScrollTo ts p)
          else p)"
  using assms
  by (simp add: navLinkClick_def Let_def isActive_def split: option.splits)

lemma navLinkClick_onlyActive:
  assumes "querySelector_class (js ''nav-menu'') p = Some m"
    and "querySelector_class (js ''nav-toggle'') p = Some t"
  shows "onlyActive p (snd (snd (navLinkClick l e p)))"
  unfolding navLinkClick_cases [OF assms]
  by (auto split: option.splits
      intro: onlyActive_refl onlyActive_smoothScrollTo
        onlyActive_trans [OF onlyActive_smoothScrollTo onlyActive_trans [OF onlyActive_remove onlyActive_remove]])

lemma navLinkClick_menu:
  assumes "querySelector_class (js ''nav-menu'') p = Some m"
    and "querySelector_class (js ''nav-toggle'') p = Some t"
  shows "(isActive (snd (snd (navLinkClick l e p))) m \<longleftrightarrow> isActive p m) \<and>
         (isActive (snd (snd (navLinkClick l e p))) t \<longleftrightarrow> isActive p t) \<or>
         \<not> isActive (snd (snd (navLinkClick l e p))) m \<and> \<not> isActive (snd (snd (navLinkClick l e p))) t"
  unfolding navLinkClick_cases [OF assms]
  using querySelector_class_Some(1) [OF assms(1)] querySelector_class_Some(1) [OF assms(2)]
  by (auto simp add: isActive_upd_remove split: option.splits)

lemma navLinkClick_closes:
  assumes "querySelector_class (js ''nav-menu'') p = Some m"
    and "querySelector_class (js ''nav-toggle'') p = Some t"
    and "href_attr (elements p ! l) = Some (0x23 # h)" "getElementById h p = Some s"
  shows "\<not> isActive (snd (snd (navLinkClick l e p))) m"
  unfolding navLinkClick_cases [OF assms(1,2)]
  using querySelector_class_Some(1) [OF assms(1)] querySelector_class_Some(1) [OF assms(2)] assms(3,4)
  by (auto simp add: isActive_upd_remove startsWith_def)

lemma navToggleClick_menu:
  assumes "t < length (elements p)" "m < length (elements p)" "t \<noteq> m"
  shows "isActive (navToggleClick (t, m) p) m \<longleftrightarrow> \<not> isActive p m"
    "isActive (navToggleClick (t, m) p) t \<longleftrightarrow> \<not> isActive p t"
    "onlyActive p (navToggleClick (t, m) p)"
  using assms
  by (simp_all add: navToggleClick_def isActive_upd_toggle
      onlyActive_trans [OF onlyActive_toggle onlyActive_toggle])

lemma documentClick_menu:
  assumes "t < length (elements p)" "m < length (elements p)"
  shows "isActive (documentClick (t, m) e p) m \<longleftrightarrow>
           isActive p m \<and> (node_contains m (target e) p \<or> node_contains t (target e) p)"
    "isActive (documentClick (t, m) e p) t \<longleftrightarrow>
           isActive p t \<and> (isActive p m \<longrightarrow> node_contains m (target e) p \<or> node_contains t (target e) p)"
    "onlyActive p (documentClick (t, m) e p)"
  using assms
  by (auto simp add: documentClick_def Let_def isActive_upd_remove isActive_def [symmetric]
      onlyActive_refl onlyActive_trans [OF onlyActive_remove onlyActive_remove])

lemma menuFound_onlyActive:
  assumes "menuFound tm p" "onlyActive p q"
  shows "menuFound tm q"
  using assms by (simp add: menuFound_def onlyActive_querySelector)

lemma menuFound_length:
  assumes "menuFound (t, m) p"
  shows "t < length (elements p)" "m < length (elements p)"
  using assms querySelector_class_Some(1) by (auto simp add: menuFound_def)

lemma goodLink_onlyActive:
  assumes "onlyActive p q" "l < length (elements p)"
  shows "goodLink q l = goodLink p l"
  using assms by (simp add: goodLink_def onlyActive_fields onlyActive_getElementById [OF assms(1)] split: option.splits)

lemma goodLink_closes:
  assumes "menuFound (t, m) p" "goodLink p l"
  shows "\<not> isActive (snd (snd (navLinkClick l e p))) m"
proof -
  from assms(2) obtain href s where h: "href_attr (elements p ! l) = Some href" "startsWith 0x23 href"
    "getElementById (drop 1 href) p = Some s"
    by (auto simp add: goodLink_def split: option.splits)
  then obtain h' where "href = 0x23 # h'" by (cases href) (auto simp add: startsWith_def)
  with h assms(1) show ?thesis
    by (intro navLinkClick_closes [of p m t l h' s]) (simp_all add: menuFound_def)
qed

lemma at_node_page:
  assumes "mobileMenu L = Some (t, m)"
  shows "snd (at_node L x ep) =
     (let p1 = (if x \<in> set (navLinks L) then snd (snd (navLinkClick x (fst ep) (snd ep))) else snd ep)
      in if x = t then navToggleClick (t, m) p1 else p1)"
  using assms by (simp add: at_node_def Let_def)

lemma navLinkClick_target: "target (fst (snd (navLinkClick l e p))) = target e"
  by (simp add: navLinkClick_def Let_def preventDefault_def split: option.splits)

lemma at_node_target:
  "target (fst (at_node L x ep)) = target (fst ep)"
  by (simp add: at_node_def Let_def navLinkClick_target split: option.splits)

lemma at_node_step:
  assumes L: "mobileMenu L = Some (t, m)" and f: "menuFound (t, m) (snd ep)" and tm: "t \<noteq> m"
  shows "onlyActive (snd ep) (snd (at_node L x ep))"
    and "isActive (snd ep) t = isActive (snd ep) m \<Longrightarrow>
         isActive (snd (at_node L x ep)) t = isActive (snd (at_node L x ep)) m"
    and "x \<noteq> t \<Longrightarrow> isActive (snd (at_node L x ep)) m \<Longrightarrow> isActive (snd ep) m"
    and "x \<noteq> t \<Longrightarrow> x \<in> set (navLinks L) \<Longrightarrow> goodLink (snd ep) x \<Longrightarrow>
         \<not> isActive (snd (at_node L x ep)) m"
    and "x \<notin> set (navLinks L) \<Longrightarrow> x \<noteq> t \<Longrightarrow> snd (at_node L x ep) = snd ep"
    and "x \<notin> set (navLinks L) \<Longrightarrow> x = t \<Longrightarrow>
         isActive (snd (at_node L x ep)) m = (\<not> isActive (snd ep) m)"
proof -
  let ?p = "snd ep"
  define p1 where "p1 = (if x \<in> set (navLinks L) then snd (snd (navLinkClick x (fst ep) ?p)) else ?p)"
  from f have qs: "querySelector_class (js ''nav-menu'') ?p = Some m"
    "querySelector_class (js ''nav-toggle'') ?p = Some t"
    by (simp_all add: menuFound_def)
  have 1: "onlyActive ?p p1"
    by (simp add: p1_def onlyActive_refl navLinkClick_onlyActive [OF qs])
  then have f1: "menuFound (t, m) p1" using f by (rule menuFound_onlyActive [rotated])
  note lt = menuFound_length [OF f1]
  have m1: "(isActive p1 m \<longleftrightarrow> isActive ?p m) \<and> (isActive p1 t \<longleftrightarrow> isActive ?p t) \<or>
            \<not> isActive p1 m \<and> \<not> isActive p1 t"
    using navLinkClick_menu [OF qs, of x "fst ep"] by (simp add: p1_def)
  have q: "snd (at_node L x ep) = (if x = t then navToggleClick (t, m) p1 else p1)"
    by (simp add: at_node_page [OF L] Let_def p1_def)
  show "onlyActive ?p (snd (at_node L x ep))"
    unfolding q using 1 onlyActive_trans [OF 1 navToggleClick_menu(3) [OF lt tm]] by simp
  show "isActive (snd (at_node L x ep)) t = isActive (snd (at_node L x ep)) m"
    if "isActive ?p t = isActive ?p m"
    unfolding q using that m1 navToggleClick_menu(1,2) [OF lt tm] by auto
  show "isActive ?p m" if "x \<noteq> t" "isActive (snd (at_node L x ep)) m"
    using that m1 unfolding q by auto
  show "\<not> isActive (snd (at_node L x ep)) m" if "x \<noteq> t" "x \<in> set (navLinks L)" "goodLink ?p x"
    using that goodLink_closes [OF f that(3), of "fst ep"] unfolding q by (simp add: p1_def)
  show "snd (at_node L x ep) = ?p" if "x \<notin> set (navLinks L)" "x \<noteq> t"
    using that unfolding q by (simp add: p1_def)
  show "isActive (snd (at_node L x ep)) m = (\<not> isActive ?p m)" if "x \<notin> set (navLinks L)" "x = t"
    using that navToggleClick_menu(1) [OF menuFound_length [OF f] tm] unfolding q by (simp add: p1_def)
qed

lemma fold_at_node_target: "target (fst (fold (at_node L) xs ep)) = target (fst ep)"
  by (induction xs arbitrary: ep) (simp_all add: at_node_target)

lemma fold_at_node_inv:
  assumes "mobileMenu L = Some (t, m)" "t \<noteq> m" "menuFound (t, m) (snd ep)"
  shows "onlyActive (snd ep) (snd (fold (at_node L) xs ep)) \<and>
         (isActive (snd ep) t = isActive (snd ep) m \<longrightarrow>
          isActive (snd (fold (at_node L) xs ep)) t = isActive (snd (fold (at_node L) xs ep)) m)"
  using assms(3)
proof (induction xs arbitrary: ep)
  case Nil
  show ?case by (simp add: onlyActive_refl)
next
  case (Cons x xs)
  note st = at_node_step [OF assms(1) Cons.prems assms(2), of x]
  have f: "menuFound (t, m) (snd (at_node L x ep))"
    using Cons.prems st(1) by (rule menuFound_onlyActive)
  from Cons.IH [OF f] onlyActive_trans [OF st(1)] st(2) show ?case by simp
qed

lemma fold_at_node_no_toggle:
  assumes "mobileMenu L = Some (t, m)" "t \<noteq> m" "menuFound (t, m) (snd ep)"
    and "t \<notin> set xs" and "\<forall>l \<in> set (navLinks L). l < length (elements (snd ep))"
  shows "(isActive (snd (fold (at_node L) xs ep)) m \<longrightarrow> isActive (snd ep) m) \<and>
         ((\<exists>l \<in> set xs \<inter> set (navLinks L). goodLink (snd ep) l) \<longrightarrow>
          \<not> isActive (snd (fold (at_node L) xs ep)) m)"
  using assms(3-5)
proof (induction xs arbitrary: ep)
  case Nil
  show ?case by simp
next
  case (Cons x xs)
  from Cons.prems(2) have xt: "x \<noteq> t" and txs: "t \<notin> set xs" by auto
  note st = at_node_step [OF assms(1) Cons.prems(1) assms(2), of x]
  let ?ep1 = "at_node L x ep"
  have f: "menuFound (t, m) (snd ?ep1)"
    using Cons.prems(1) st(1) by (rule menuFound_onlyActive)
  have len: "length (elements (snd ?ep1)) = length (elements (snd ep))"
    using st(1) by (simp add: onlyActive_def)
  have links: "\<forall>l \<in> set (navLinks L). l < length (elements (snd ?ep1))"
    using Cons.prems(3) by (simp add: len)
  note IH = Cons.IH [OF f txs links]
  have good: "goodLink (snd ?ep1) l = goodLink (snd ep) l" if "l \<in> set (navLinks L)" for l
    using that Cons.prems(3) by (intro goodLink_onlyActive [OF st(1)]) simp
  have a: "isActive (snd (fold (at_node L) (x # xs) ep)) m \<longrightarrow> isActive (snd ep) m"
    using IH st(3) [OF xt] by auto
  have b: "\<not> isActive (snd (fold (at_node L) (x # xs) ep)) m"
    if "\<exists>l \<in> set (x # xs) \<inter> set (navLinks L). goodLink (snd ep) l"
  proof -
    from that obtain l where l: "l \<in> set (navLinks L)" "goodLink (snd ep) l" "l = x \<or> l \<in> set xs"
      by auto
    from l(3) show ?thesis
    proof
      assume "l = x"
      with l st(4) [OF xt] have "\<not> isActive (snd ?ep1) m" by simp
      with IH show ?thesis by auto
    next
      assume "l \<in> set xs"
      with l good [OF l(1)] have "\<exists>l \<in> set xs \<inter> set (navLinks L). goodLink (snd ?ep1) l" by auto
      with IH show ?thesis by simp
    qed
  qed
  from a b show ?case by blast
qed

lemma fold_at_node_idle:
  assumes "mobileMenu L = Some (t, m)" "t \<noteq> m" "menuFound (t, m) (snd ep)"
    and "t \<notin> set xs" and "set xs \<inter> set (navLinks L) = {}"
  shows "snd (fold (at_node L) xs ep) = snd ep"
  using assms(3-5)
proof (induction xs arbitrary: ep)
  case Nil
  show ?case by simp
next
  case (Cons x xs)
  from Cons.prems have x: "x \<notin> set (navLinks L)" "x \<noteq> t" by auto
  have 1: "snd (at_node L x ep) = snd ep"
    by (rule at_node_step(5) [OF assms(1) Cons.prems(1) assms(2) x])
  with Cons.prems have "snd (fold (at_node L) xs (at_node L x ep)) = snd (at_node L x ep)"
    by (intro Cons.IH) auto
  with 1 show ?case by simp
qed

lemma fold_at_node_toggle:
  assumes "mobileMenu L = Some (t, m)" "t \<noteq> m" "menuFound (t, m) (snd ep)"
    and "t \<in> set xs" and "distinct xs" and "set xs \<inter> set (navLinks L) = {}"
  shows "isActive (snd (fold (at_node L) xs ep)) m = (\<not> isActive (snd ep) m)"
  using assms(3-6)
proof (induction xs arbitrary: ep)
  case Nil
  then show ?case by simp
next
  case (Cons x xs)
  from Cons.prems have x: "x \<notin> set (navLinks L)" and links: "set xs \<inter> set (navLinks L) = {}"
    and d: "distinct xs" "x \<notin> set xs"
    by auto
  note st = at_node_step [OF assms(1) Cons.prems(1) assms(2), of x]
  have f: "menuFound (t, m) (snd (at_node L x ep))"
    using Cons.prems(1) st(1) by (rule menuFound_onlyActive)
  show ?case
  proof (cases "x = t")
    case True
    with d have "t \<notin> set xs" by simp
    from fold_at_node_idle [OF assms(1,2) f this links] st(6) [OF x True]
    show ?thesis by simp
  next
    case False
    with Cons.prems(2) have "t \<in> set xs" by simp
    from Cons.IH [OF f this d(1) links] st(5) [OF x False] show ?thesis by simp
  qed
qed

lemma click_page:
  assumes "mobileMenu L = Some (t, m)"
  shows "snd (click L x p) =
     documentClick (t, m) (fst (fold (at_node L) (event_path p x) (\<lparr>target = x, defaultPrevented = False\<rparr>, p)))
       (snd (fold (at_node L) (event_path p x) (\<lparr>target = x, defaultPrevented = False\<rparr>, p)))"
  using assms by (simp add: click_def Let_def)

lemma click_step:
  assumes L: "mobileMenu L = Some (t, m)" and tm: "t \<noteq> m" and f: "menuFound (t, m) p"
    and links: "\<forall>l \<in> set (navLinks L). l < length (elements p)"
  shows "onlyActive p (snd (click L x p))"
    and "isActive p t = isActive p m \<Longrightarrow> isActive (snd (click L x p)) t = isActive (snd (click L x p)) m"
    and "x < length (elements p) \<Longrightarrow> node_contains t x p \<Longrightarrow>
         set (event_path p x) \<inter> set (navLinks L) = {} \<Longrightarrow>
         isActive (snd (click L x p)) m = (\<not> isActive p m)"
    and "x < length (elements p) \<Longrightarrow> \<not> node_contains m x p \<Longrightarrow> \<not> node_contains t x p \<Longrightarrow>
         \<not> isActive (snd (click L x p)) m"
    and "\<not> node_contains t x p \<Longrightarrow> \<exists>l \<in> set (event_path p x) \<inter> set (navLinks L). goodLink p l \<Longrightarrow>
         \<not> isActive (snd (click L x p)) m"
proof -
  define ep0 where "ep0 = (\<lparr>target = x, defaultPrevented = False\<rparr>, p)"
  define ep where "ep = fold (at_node L) (event_path p x) ep0"
  have f0: "menuFound (t, m) (snd ep0)" and l0: "\<forall>l \<in> set (navLinks L). l < length (elements (snd ep0))"
    using f links by (simp_all add: ep0_def)
  have q: "snd (click L x p) = documentClick (t, m) (fst ep) (snd ep)"
    by (simp add: click_page [OF L] ep_def ep0_def)
  have tgt: "target (fst ep) = x"
    by (simp add: ep_def fold_at_node_target ep0_def)
  from fold_at_node_inv [OF L tm f0, of "event_path p x"]
  have oa: "onlyActive p (snd ep)"
    and agree: "isActive p t = isActive p m \<Longrightarrow> isActive (snd ep) t = isActive (snd ep) m"
    by (simp_all add: ep_def ep0_def)
  have f1: "menuFound (t, m) (snd ep)" using f oa by (rule menuFound_onlyActive)
  note lt = menuFound_length [OF f1]
  note dc = documentClick_menu [OF lt, of "fst ep"]
  show "onlyActive p (snd (click L x p))"
    unfolding q using oa dc(3) by (rule onlyActive_trans)
  show "isActive (snd (click L x p)) t = isActive (snd (click L x p)) m" if "isActive p t = isActive p m"
    unfolding q using agree [OF that] dc(1,2) by auto
  have path: "event_path (snd ep) x = event_path p x" if "x < length (elements p)"
    using oa that by (rule event_path_onlyActive)
  show "isActive (snd (click L x p)) m = (\<not> isActive p m)"
    if "x < length (elements p)" "node_contains t x p" "set (event_path p x) \<inter> set (navLinks L) = {}"
  proof -
    from that(2) have "t \<in> set (event_path p x)" by (simp add: node_contains_def)
    from fold_at_node_toggle [OF L tm f0 this _ that(3)]
    have "isActive (snd ep) m = (\<not> isActive p m)"
      by (simp add: ep_def ep0_def event_path_def distinct_path_up)
    moreover have "node_contains t (target (fst ep)) (snd ep)"
      using that(2) by (simp add: tgt node_contains_def path [OF that(1)])
    ultimately show ?thesis unfolding q using dc(1) by simp
  qed
  show "\<not> isActive (snd (click L x p)) m"
    if "x < length (elements p)" "\<not> node_contains m x p" "\<not> node_contains t x p"
  proof -
    from that(2,3) have "\<not> (node_contains m (target (fst ep)) (snd ep) \<or> node_contains t (target (fst ep)) (snd ep))"
      by (simp add: tgt node_contains_def path [OF that(1)])
    then show ?thesis unfolding q using dc(1) by simp
  qed
  show "\<not> isActive (snd (click L x p)) m"
    if "\<not> node_contains t x p" "\<exists>l \<in> set (event_path p x) \<inter> set (navLinks L). goodLink p l"
  proof -
    from that(1) have "t \<notin> set (event_path p x)" by (simp add: node_contains_def)
    from fold_at_node_no_toggle [OF L tm f0 this l0] that(2)
    have "\<not> isActive (snd ep) m" by (simp add: ep_def ep0_def)
    then show ?thesis unfolding q using dc(1) by simp
  qed
qed

lemma clicks_inv:
  assumes L: "mobileMenu L = Some (t, m)" and tm: "t \<noteq> m" and f: "menuFound (t, m) p"
    and links: "\<forall>l \<in> set (navLinks L). l < length (elements p)"
  shows "onlyActive p (clicks L tgts p) \<and>
         (isActive p t = isActive p m \<longrightarrow> isActive (clicks L tgts p) t = isActive (clicks L tgts p) m)"
  using f links
proof (induction tgts arbitrary: p)
  case Nil
  show ?case by (simp add: clicks_def onlyActive_refl)
next
  case (Cons x xs)
  note st = click_step(1,2) [OF L tm Cons.prems, of x]
  have f1: "menuFound (t, m) (snd (click L x p))"
    using Cons.prems(1) st(1) by (rule menuFound_onlyActive)
  have l1: "\<forall>l \<in> set (navLinks L). l < length (elements (snd (click L x p)))"
    using Cons.prems(2) st(1) by (simp add: onlyActive_def)
  have c: "clicks L (x # xs) p = clicks L xs (snd (click L x p))" by (simp add: clicks_def)
  from Cons.IH [OF f1 l1] onlyActive_trans [OF st(1)] st(2) show ?case
    unfolding c by simp
qed

lemma init_menu:
  assumes "initMobileMenu p = Some (t, m)"
  shows "mobileMenu (init p) = Some (t, m)" "menuFound (t, m) p"
    "\<forall>l \<in> set (navLinks (init p)). l < length (elements p)"
  using assms
  by (auto simp add: init_def initNavigation_def initMobileMenu_def menuFound_def querySelectorAll_class_def set_matching
      split: option.splits)

text \<open>
  Claim C8. Let the page at load time have a toggle button \<open>t\<close> and a panel \<open>m\<close>, two
  nodes, neither carrying the class \<open>active\<close> (the menu starts closed), and let the
  listeners be those registered at load time. In every page reached by clicks, the
  toggle button carries the class exactly when the panel does, before and after one
  more click; a click on the toggle button (inside it, and on no navigation link)
  flips whether the panel carries the class; a click inside neither the panel nor the
  toggle button leaves the panel without the class; and a click that follows a
  navigation link (outside the toggle button, the link's fragment resolving to an
  element) leaves the panel without the class.
\<close>

theorem mobile_menu_state_machine:
  assumes "initMobileMenu p0 = Some (t, m)" and "t \<noteq> m"
    and "\<not> isActive p0 t" and "\<not> isActive p0 m"
    and "x < length (elements p0)"
  shows
   "(isActive (clicks (init p0) tgts p0) t \<longleftrightarrow> isActive (clicks (init p0) tgts p0) m) \<and>
    (isActive (snd (click (init p0) x (clicks (init p0) tgts p0))) t \<longleftrightarrow>
     isActive (snd (click (init p0) x (clicks (init p0) tgts p0))) m) \<and>
    (node_contains t x (clicks (init p0) tgts p0) \<and>
     set (event_path (clicks (init p0) tgts p0) x) \<inter> set (navLinks (init p0)) = {} \<longrightarrow>
       (isActive (snd (click (init p0) x (clicks (init p0) tgts p0))) m \<longleftrightarrow>
        \<not> isActive (clicks (init p0) tgts p0) m)) \<and>
    (\<not> node_contains m x (clicks (init p0) tgts p0) \<and> \<not> node_contains t x (clicks (init p0) tgts p0) \<longrightarrow>
       \<not> isActive (snd (click (init p0) x (clicks (init p0) tgts p0))) m) \<and>
    (\<not> node_contains t x (clicks (init p0) tgts p0) \<and>
     (\<exists>l \<in> set (event_path (clicks (init p0) tgts p0) x) \<inter> set (navLinks (init p0)).
        goodLink (clicks (init p0) tgts p0) l) \<longrightarrow>
       \<not> isActive (snd (click (init p0) x (clicks (init p0) tgts p0))) m)"
proof -
  note i = init_menu [OF assms(1)]
  define p where "p = clicks (init p0) tgts p0"
  from clicks_inv [OF i(1) assms(2) i(2,3), of tgts] assms(3,4)
  have oa: "onlyActive p0 p" and agree: "isActive p t = isActive p m"
    by (simp_all add: p_def)
  have f: "menuFound (t, m) p" using i(2) oa by (rule menuFound_onlyActive)
  have len: "length (elements p) = length (elements p0)" using oa by (simp add: onlyActive_def)
  have links: "\<forall>l \<in> set (navLinks (init p0)). l < length (elements p)"
    using i(3) by (simp add: len)
  have x: "x < length (elements p)" using assms(5) by (simp add: len)
  note st = click_step [OF i(1) assms(2) f links, of x]
  from agree st(2) [OF agree] st(3) [OF x] st(4) [OF x] st(5) show ?thesis
    unfolding p_def [symmetric] by blast
qed

lemmas menu_defs = menu_page_def page_of_def toggle_el_def menu_el_def link_el_def section_el_def blank_def

lemma menu_page_init:
  "initMobileMenu menu_page = Some (0, 1)" "navLinks (init menu_page) = [2]"
  "\<not> isActive menu_page 0" "\<not> isActive menu_page 1" "length (elements menu_page) = 4"
  by (simp_all add: initMobileMenu_def init_def initNavigation_def querySelector_class_def querySelectorAll_class_def
      matching_eval first_def classList_contains_def isActive_def menu_defs)

lemma menu_page_paths:
  "event_path menu_page 0 = [0]" "event_path menu_page 3 = [3]" "event_path menu_page 2 = [2, 1]"
  by (simp_all add: event_path_def path_up.simps menu_defs)

lemma menu_page_link: "goodLink menu_page 2"
proof -
  have "href_attr (elements menu_page ! 2) = Some (0x23 # js ''about'')"
    by (simp add: menu_defs js_def)
  moreover have "getElementById (js ''about'') menu_page = Some 3"
    by (simp add: getElementById_def matching_eval first_def menu_defs)
  ultimately show ?thesis by (simp add: goodLink_def startsWith_def)
qed

lemma menu_page_run:
  "onlyActive menu_page (clicks (init menu_page) tgts menu_page)"
proof -
  have "(0::nat) \<noteq> 1" by simp
  from clicks_inv [OF init_menu(1) [OF menu_page_init(1)] this init_menu(2,3) [OF menu_page_init(1)], of tgts]
  show ?thesis by simp
qed

theorem mobile_menu_state_machine_witness:
  "isActive (clicks (init menu_page) [0] menu_page) 1 \<and>
   isActive (clicks (init menu_page) [0] menu_page) 0 \<and>
   \<not> isActive (snd (click (init menu_page) 3 (clicks (init menu_page) [0] menu_page))) 1 \<and>
   \<not> isActive (snd (click (init menu_page) 2 (clicks (init menu_page) [0] menu_page))) 1 \<and>
   \<not> isActive (snd (click (init menu_page) 0 (clicks (init menu_page) [0] menu_page))) 1"
proof -
  let ?L = "init menu_page"
  let ?p = "clicks ?L [0] menu_page"
  have ne: "(0::nat) \<noteq> 1" by simp
  have lt: "(0::nat) < length (elements menu_page)" "(3::nat) < length (elements menu_page)"
    "(2::nat) < length (elements menu_page)"
    by (simp_all add: menu_page_init)
  note th = mobile_menu_state_machine [OF menu_page_init(1) ne menu_page_init(3,4)]
  have p0: "clicks ?L [] menu_page = menu_page" by (simp add: clicks_def)
  have p1: "snd (click ?L 0 menu_page) = ?p" by (simp add: clicks_def)
  have "node_contains 0 0 menu_page \<and> set (event_path menu_page 0) \<inter> set (navLinks ?L) = {}"
    by (simp add: node_contains_def menu_page_paths menu_page_init)
  with th [OF lt(1), of "[]"] have 1: "isActive ?p 1"
    unfolding p0 p1 using menu_page_init(4) by blast
  from th [OF lt(1), of "[0]"] have 2: "isActive ?p 0 \<longleftrightarrow> isActive ?p 1" by blast
  have paths: "event_path ?p x = event_path menu_page x" if "x < length (elements menu_page)" for x
    using menu_page_run that by (rule event_path_onlyActive)
  have "\<not> node_contains 1 3 ?p \<and> \<not> node_contains 0 3 ?p"
    by (simp add: node_contains_def paths lt menu_page_paths)
  with th [OF lt(2), of "[0]"]
  have 3: "\<not> isActive (snd (click ?L 3 ?p)) 1" by blast
  have "goodLink ?p 2"
    using menu_page_link by (simp add: goodLink_onlyActive [OF menu_page_run] lt)
  then have "\<not> node_contains 0 2 ?p \<and> (\<exists>l \<in> set (event_path ?p 2) \<inter> set (navLinks ?L). goodLink ?p l)"
    by (simp add: node_contains_def paths lt menu_page_paths menu_page_init)
  with th [OF lt(3), of "[0]"]
  have 4: "\<not> isActive (snd (click ?L 2 ?p)) 1" by blast
  have "node_contains 0 0 ?p \<and> set (event_path ?p 0) \<inter> set (navLinks ?L) = {}"
    by (simp add: node_contains_def paths lt menu_page_paths menu_page_init)
  with th [OF lt(1), of "[0]"] 1
  have 5: "\<not> isActive (snd (click ?L 0 ?p)) 1" by blast
  from 1 2 3 4 5 show ?thesis by simp
qed

end
